theory Spec2Isabelle
  imports Main
begin

section \<open>Go strings, bytes and decimal numbers\<close>

text \<open>
  A Go \<open>string\<close> or \<open>[]byte\<close> is a sequence of 8-bit bytes, which is what an Isabelle
  \<open>string\<close> (a \<open>char list\<close>) is. \<open>byte c\<close> is the numeric value of a byte.
\<close>

definition byte :: "char \<Rightarrow> nat" where
  "byte c = of_char c"

definition digit :: "nat \<Rightarrow> char" where
  "digit n = ''0123456789'' ! n"

fun dec_nat :: "nat \<Rightarrow> string" where
  "dec_nat n = (if n < 10 then [digit n] else dec_nat (n div 10) @ [digit (n mod 10)])"

declare dec_nat.simps [simp del]

text \<open>\<open>strconv.Itoa\<close> / \<open>strconv.AppendInt(_, i, 10)\<close>, which \<open>encoding/json\<close> uses for an
  \<open>int\<close> field.\<close>

definition Itoa :: "int \<Rightarrow> string" where
  "Itoa i = (if i < 0 then CHR ''-'' # dec_nat (nat (- i)) else dec_nat (nat i))"

text \<open>\<open>appendInt(b, x, width)\<close> of package \<open>time\<close>: the decimal digits of \<open>x\<close>, padded with
  zeros on the left up to \<open>width\<close>, after a minus sign when \<open>x\<close> is negative.\<close>

definition appendInt :: "int \<Rightarrow> nat \<Rightarrow> string" where
  "appendInt x width =
     (let ds = dec_nat (nat \<bar>x\<bar>)
      in (if x < 0 then ''-'' else '''') @ replicate (width - length ds) (CHR ''0'') @ ds)"

text \<open>Go's integer division truncates towards zero.\<close>

definition quo :: "int \<Rightarrow> int \<Rightarrow> int" where
  "quo a b = (if a < 0 then - ((- a) div b) else a div b)"

section \<open>Timestamps: \<open>time.Now()\<close> and its two renderings\<close>

text \<open>
  \<open>time.Now()\<close> is an answer of the environment. The model keeps what the two formatting
  calls of the source read from it: the civil date and clock in the local zone, the
  nanoseconds, the zone's offset (seconds east of UTC) and abbreviation, and the monotonic
  clock reading that \<open>time.Now()\<close> attaches.
\<close>

record gotime =
  year :: int
  month :: nat
  day :: nat
  hour :: nat
  minute :: nat
  second :: nat
  nsec :: nat
  zone_offset :: int
  zone_name :: string
  mono :: "int option"

text \<open>\<open>t.Format(time.RFC3339)\<close>, layout \<open>2006-01-02T15:04:05Z07:00\<close> (app.go, line 78).\<close>

definition zone_hhmm :: "int \<Rightarrow> string \<Rightarrow> string" where
  "zone_hhmm offset sep =
     (let zone = quo offset 60
      in (if zone < 0 then ''-'' else ''+'') @
         appendInt (quo \<bar>zone\<bar> 60) 2 @ sep @ appendInt (\<bar>zone\<bar> mod 60) 2)"

definition date_part :: "gotime \<Rightarrow> string" where
  "date_part t =
     appendInt (year t) 4 @ ''-'' @ appendInt (int (month t)) 2 @ ''-'' @ appendInt (int (day t)) 2"

definition clock_part :: "gotime \<Rightarrow> string" where
  "clock_part t =
     appendInt (int (hour t)) 2 @ '':'' @ appendInt (int (minute t)) 2 @ '':'' @
     appendInt (int (second t)) 2"

definition Format_RFC3339 :: "gotime \<Rightarrow> string" where
  "Format_RFC3339 t =
     date_part t @ ''T'' @ clock_part t @
     (if zone_offset t = 0 then ''Z'' else zone_hhmm (zone_offset t) '':'')"

text \<open>\<open>t.String()\<close> (part_000, lines 89 and 120): layout
  \<open>2006-01-02 15:04:05.999999999 -0700 MST\<close>, followed by the monotonic reading
  \<open>m=\<plusminus>ddd.nnnnnnnnn\<close> when the time has one. The fraction drops trailing zeros and is
  omitted when the nanoseconds are zero; a zone without an abbreviation prints its offset.\<close>

fun strip_zeros :: "string \<Rightarrow> string" where
  "strip_zeros [] = []"
| "strip_zeros (c # cs) =
     (case strip_zeros cs of
        [] \<Rightarrow> (if c = CHR ''0'' then [] else [c])
      | r # rs \<Rightarrow> c # r # rs)"

definition frac_part :: "nat \<Rightarrow> string" where
  "frac_part ns = (if ns = 0 then '''' else ''.'' @ strip_zeros (appendInt (int ns) 9))"

definition mono_part :: "int option \<Rightarrow> string" where
  "mono_part m =
     (case m of
        None \<Rightarrow> ''''
      | Some ext \<Rightarrow>
          (let m2 = nat \<bar>ext\<bar>;
               m1 = m2 div 1000000000;
               m0 = m1 div 1000000000
           in '' m='' @ (if ext < 0 then ''-'' else ''+'') @
              (if m0 \<noteq> 0 then appendInt (int m0) 0 @ appendInt (int (m1 mod 1000000000)) 9
               else appendInt (int (m1 mod 1000000000)) 0) @
              ''.'' @ appendInt (int (m2 mod 1000000000)) 9))"

definition time_String :: "gotime \<Rightarrow> string" where
  "time_String t =
     date_part t @ '' '' @ clock_part t @ frac_part (nsec t) @ '' '' @
     zone_hhmm (zone_offset t) '''' @ '' '' @
     (if zone_name t \<noteq> '''' then zone_name t else zone_hhmm (zone_offset t) '''') @
     mono_part (mono t)"

text \<open>The values \<open>time.Now()\<close> can return: a civil date of the Gregorian calendar in a
  four-digit year, a clock without leap second, a zone offset of less than a day.\<close>

definition leap_year :: "nat \<Rightarrow> bool" where
  "leap_year y = (y mod 4 = 0 \<and> (y mod 100 \<noteq> 0 \<or> y mod 400 = 0))"

definition days_in :: "nat \<Rightarrow> nat \<Rightarrow> nat" where
  "days_in y m =
     (if m = 2 then (if leap_year y then 29 else 28)
      else if m = 4 \<or> m = 6 \<or> m = 9 \<or> m = 11 then 30 else 31)"

definition wf_time :: "gotime \<Rightarrow> bool" where
  "wf_time t =
     (0 \<le> year t \<and> year t \<le> 9999 \<and> 1 \<le> month t \<and> month t \<le> 12 \<and>
      1 \<le> day t \<and> day t \<le> days_in (nat (year t)) (month t) \<and>
      hour t < 24 \<and> minute t < 60 \<and> second t < 60 \<and> nsec t < 1000000000 \<and>
      - 86400 < zone_offset t \<and> zone_offset t < 86400)"

subsection \<open>RFC 3339 \<open>date-time\<close>\<close>

text \<open>
  The grammar of RFC 3339, section 5.6, with the value restrictions of section 5.7:
  \<open>full-date "T" partial-time time-offset\<close>, where the time offset is \<open>Z\<close> or a signed
  \<open>hh:mm\<close>.
\<close>

definition is_digit :: "char \<Rightarrow> bool" where
  "is_digit c = (48 \<le> byte c \<and> byte c \<le> 57)"

definition digit_val :: "char \<Rightarrow> nat" where
  "digit_val c = byte c - 48"

definition num_val :: "string \<Rightarrow> nat" where
  "num_val s = foldl (\<lambda>n c. 10 * n + digit_val c) 0 s"

definition field :: "string \<Rightarrow> nat \<Rightarrow> nat \<Rightarrow> string" where
  "field s i n = take n (drop i s)"

definition is_num :: "string \<Rightarrow> nat \<Rightarrow> nat \<Rightarrow> bool" where
  "is_num s i n = (i + n \<le> length s \<and> list_all is_digit (field s i n))"

definition valid_offset :: "string \<Rightarrow> bool" where
  "valid_offset z =
     (z = ''Z'' \<or> z = ''z'' \<or>
      (length z = 6 \<and> (z ! 0 = CHR ''+'' \<or> z ! 0 = CHR ''-'') \<and>
       is_num z 1 2 \<and> z ! 3 = CHR '':'' \<and> is_num z 4 2 \<and>
       num_val (field z 1 2) < 24 \<and> num_val (field z 4 2) < 60))"

definition valid_rfc3339 :: "string \<Rightarrow> bool" where
  "valid_rfc3339 s =
     (20 \<le> length s \<and>
      is_num s 0 4 \<and> s ! 4 = CHR ''-'' \<and> is_num s 5 2 \<and> s ! 7 = CHR ''-'' \<and> is_num s 8 2 \<and>
      (s ! 10 = CHR ''T'' \<or> s ! 10 = CHR ''t'') \<and>
      is_num s 11 2 \<and> s ! 13 = CHR '':'' \<and> is_num s 14 2 \<and> s ! 16 = CHR '':'' \<and> is_num s 17 2 \<and>
      1 \<le> num_val (field s 5 2) \<and> num_val (field s 5 2) \<le> 12 \<and>
      1 \<le> num_val (field s 8 2) \<and>
      num_val (field s 8 2) \<le> days_in (num_val (field s 0 4)) (num_val (field s 5 2)) \<and>
      num_val (field s 11 2) < 24 \<and> num_val (field s 14 2) < 60 \<and>
      num_val (field s 17 2) \<le> 60 \<and>
      (let rest = drop 19 s
       in if rest ! 0 = CHR ''.''
          then (let frac = takeWhile is_digit (drop 1 rest)
                in frac \<noteq> [] \<and> valid_offset (drop (1 + length frac) rest))
          else valid_offset rest))"

section \<open>JSON encoding: \<open>encoding/json\<close> on the two record types\<close>

subsection \<open>UTF-8 decoding of one rune\<close>

text \<open>
  \<open>utf8.DecodeRuneInString\<close>: the first byte selects the length of the sequence and the
  range accepted for the second byte (the table \<open>first\<close> and \<open>acceptRanges\<close> of package
  \<open>unicode/utf8\<close>); the other continuation bytes lie in \<open>0x80..0xBF\<close>. An invalid or
  truncated sequence decodes to \<open>(RuneError, 1)\<close>. The masks \<open>b & 0x1F\<close>, \<open>b & 0x0F\<close>,
  \<open>b & 0x07\<close>, \<open>b & 0x3F\<close> are written \<open>mod 32\<close>, \<open>mod 16\<close>, \<open>mod 8\<close>, \<open>mod 64\<close>, and the left
  shifts as multiplications.
\<close>

definition RuneError :: nat where
  "RuneError = 0xFFFD"

definition seq_len :: "nat \<Rightarrow> nat" where
  "seq_len s0 =
     (if s0 < 0x80 then 1
      else if s0 < 0xC2 then 0
      else if s0 < 0xE0 then 2
      else if s0 < 0xF0 then 3
      else if s0 < 0xF5 then 4
      else 0)"

definition accept_lo :: "nat \<Rightarrow> nat" where
  "accept_lo s0 = (if s0 = 0xE0 then 0xA0 else if s0 = 0xF0 then 0x90 else 0x80)"

definition accept_hi :: "nat \<Rightarrow> nat" where
  "accept_hi s0 = (if s0 = 0xED then 0x9F else if s0 = 0xF4 then 0x8F else 0xBF)"

definition is_cont :: "nat \<Rightarrow> bool" where
  "is_cont b = (0x80 \<le> b \<and> b \<le> 0xBF)"

definition DecodeRuneInString :: "string \<Rightarrow> nat \<times> nat" where
  "DecodeRuneInString s =
     (if length s < 1 then (RuneError, 0)
      else
        let s0 = byte (s ! 0); sz = seq_len s0
        in if sz = 1 then (s0, 1)
           else if sz = 0 then (RuneError, 1)
           else if length s < sz then (RuneError, 1)
           else
             let s1 = byte (s ! 1)
             in if s1 < accept_lo s0 \<or> accept_hi s0 < s1 then (RuneError, 1)
                else if sz \<le> 2 then (s0 mod 32 * 64 + s1 mod 64, 2)
                else
                  let s2 = byte (s ! 2)
                  in if \<not> is_cont s2 then (RuneError, 1)
                     else if sz \<le> 3 then (s0 mod 16 * 4096 + s1 mod 64 * 64 + s2 mod 64, 3)
                     else
                       let s3 = byte (s ! 3)
                       in if \<not> is_cont s3 then (RuneError, 1)
                          else (s0 mod 8 * 262144 + s1 mod 64 * 4096 + s2 mod 64 * 64 + s3 mod 64, 4))"

subsection \<open>String values\<close>

text \<open>
  \<open>appendString\<close> of \<open>encoding/json\<close> (Go 1.22 and later; earlier releases write the
  backspace and the form feed as six-character escapes, which denote the same bytes) with
  \<open>escapeHTML = true\<close>, the setting of \<open>json.Marshal\<close>. A byte below \<open>0x80\<close> is copied when
  \<open>htmlSafeSet\<close> holds for it (every byte from \<open>0x20\<close> on except the double quote, the
  backslash, \<open><\<close>, \<open>>\<close> and \<open>&\<close>) and escaped otherwise. From \<open>0x80\<close> on, a well-formed UTF-8 sequence is copied, except U+2028
  and U+2029, which are escaped; a byte that starts no well-formed sequence is replaced by
  the escape of U+FFFD. The source copies the unescaped stretches lazily; the bytes produced
  are the same.
\<close>

definition htmlSafe :: "char \<Rightarrow> bool" where
  "htmlSafe c =
     (0x20 \<le> byte c \<and> byte c < 0x80 \<and>
      c \<noteq> CHR 0x22 \<and> c \<noteq> CHR 0x5C \<and> c \<noteq> CHR ''<'' \<and> c \<noteq> CHR ''>'' \<and> c \<noteq> CHR ''&'')"

definition hex :: "nat \<Rightarrow> char" where
  "hex n = ''0123456789abcdef'' ! n"

definition escape :: "char \<Rightarrow> string" where
  "escape c =
     (if c = CHR 0x5C \<or> c = CHR 0x22 then [CHR 0x5C, c]
      else if c = CHR 0x08 then [CHR 0x5C, CHR ''b'']
      else if c = CHR 0x0C then [CHR 0x5C, CHR ''f'']
      else if c = CHR 0x0A then [CHR 0x5C, CHR ''n'']
      else if c = CHR 0x0D then [CHR 0x5C, CHR ''r'']
      else if c = CHR 0x09 then [CHR 0x5C, CHR ''t'']
      else [CHR 0x5C, CHR ''u'', CHR ''0'', CHR ''0'', hex (byte c div 16), hex (byte c mod 16)])"

function appendString_body :: "string \<Rightarrow> string" where
  "appendString_body [] = []"
| "appendString_body (c # cs) =
     (if byte c < 0x80 then
        (if htmlSafe c then [c] else escape c) @ appendString_body cs
      else
        (case DecodeRuneInString (take 4 (c # cs)) of
           (r, n) \<Rightarrow>
             if r = RuneError \<and> n = 1 then
               [CHR 0x5C, CHR ''u'', CHR ''f'', CHR ''f'', CHR ''f'', CHR ''d''] @
               appendString_body (drop n (c # cs))
             else if r = 0x2028 \<or> r = 0x2029 then
               [CHR 0x5C, CHR ''u'', CHR ''2'', CHR ''0'', CHR ''2'', hex (r mod 16)] @
               appendString_body (drop n (c # cs))
             else take n (c # cs) @ appendString_body (drop n (c # cs))))"
  by pat_completeness auto
termination
proof -
  have pos: "0 < n" if "(r, n) = DecodeRuneInString (c # s)" for r n c s
    using that by (auto simp: DecodeRuneInString_def Let_def split: if_splits)
  show ?thesis
    by (relation "measure length") (auto dest: pos)
qed

definition appendString :: "string \<Rightarrow> string" where
  "appendString s = [CHR 0x22] @ appendString_body s @ [CHR 0x22]"

subsection \<open>The record types\<close>

text \<open>
  \<open>SyslogLine\<close> of app.go (lines 22--28): \<open>json.Marshal\<close> writes the fields in declaration
  order under the names of their \<open>json\<close> tags, strings through \<open>appendString\<close>, the \<open>int\<close>
  in decimal. It returns no error on a struct of strings and integers; the error branch of
  the callers is kept in the model.
\<close>

record SyslogLine =
  Timestamp :: string
  Hostname :: string
  Program :: string
  Pid :: int
  Message :: string

definition encode :: "SyslogLine \<Rightarrow> string" where
  \<open>encode sl =
     ''{"timestamp":'' @ appendString (Timestamp sl) @
     '',"hostname":'' @ appendString (Hostname sl) @
     '',"program":'' @ appendString (Program sl) @
     '',"pid":'' @ Itoa (Pid sl) @
     '',"message":'' @ appendString (Message sl) @ ''}''\<close>

definition json_Marshal :: "SyslogLine \<Rightarrow> string + string" where
  "json_Marshal sl = Inr (encode sl)"

text \<open>
  \<open>SyslogLine\<close> of part_000 (lines 28--35), here \<open>SyslogLineB\<close> with fields suffixed \<open>B\<close>:
  a leading boolean \<open>beat\<close>, and \<open>pid\<close> a string. No field is tagged \<open>omitempty\<close>, so all six
  are written in every encoding.
\<close>

record SyslogLineB =
  Beat :: bool
  TimestampB :: string
  HostnameB :: string
  ProgramB :: string
  PidB :: string
  MessageB :: string

definition encodeB :: "SyslogLineB \<Rightarrow> string" where
  \<open>encodeB sl =
     ''{"beat":'' @ (if Beat sl then ''true'' else ''false'') @
     '',"timestamp":'' @ appendString (TimestampB sl) @
     '',"hostname":'' @ appendString (HostnameB sl) @
     '',"program":'' @ appendString (ProgramB sl) @
     '',"pid":'' @ appendString (PidB sl) @
     '',"message":'' @ appendString (MessageB sl) @ ''}''\<close>

definition json_MarshalB :: "SyslogLineB \<Rightarrow> string + string" where
  "json_MarshalB sl = Inr (encodeB sl)"

section \<open>The environment of the delivery loop\<close>

text \<open>
  Each iteration of the loop blocks in \<open>select\<close> until the tail library delivers a line (or
  closes its channel) or the ticker fires. An \<^emph>\<open>event\<close> is what \<open>select\<close> returns, together
  with the answers the environment gives to the calls made while the event is handled: the
  clock, the result of \<open>stream.Write\<close> and (part_000 only) of \<open>stream.Read\<close>. An answer to a
  call that is not made is ignored. A run of the loop over a finite list of events ends
  \<open>Waiting\<close> (blocked in \<open>select\<close>, all events consumed), \<open>Returned\<close>, \<open>Hung\<close> (blocked for
  ever in a call) or \<open>Exited\<close> (\<open>log.Fatalf\<close>).
\<close>

record tail_Line =
  Text :: string
  Err :: "string option"

datatype read_result = ReadOk int | ReadErr string | ReadBlocks

record answers =
  now :: gotime
  write_err :: "string option"
  read_res :: read_result

datatype event = LineEv tail_Line answers | ChanClosed | TickEv answers

datatype io =
    Write string "string option"
  | Read read_result
  | Log string
  | Print string
  | StreamClose

datatype control = Continue | Return | Hang

datatype status = Waiting | Returned | Hung | Exited

section \<open>app.go: the fail-fast shipper\<close>

record App =
  InputFile :: string
  Hostname :: string
  Pid :: int

text \<open>The record built for a line (app.go, lines 77--83), and the heartbeat token
  (line 104).\<close>

definition log_record :: "App \<Rightarrow> gotime \<Rightarrow> string \<Rightarrow> SyslogLine" where
  "log_record a t text =
     \<lparr>Timestamp = Format_RFC3339 t,
      SyslogLine.Hostname = App.Hostname a,
      Program = ''teller'',
      SyslogLine.Pid = App.Pid a,
      Message = text\<rparr>"

definition beat_token :: string where
  "beat_token = ''|beat|''"

text \<open>One iteration of the \<open>for\<close>/\<open>select\<close> loop of \<open>TailAndProcess\<close> (app.go, lines 64--110).\<close>

definition handle :: "App \<Rightarrow> event \<Rightarrow> io list \<times> control" where
  "handle a ev =
     (case ev of
        ChanClosed \<Rightarrow> ([Log ''Tail channel closed, exiting.''], Return)
      | LineEv line ans \<Rightarrow>
          (case Err line of
             Some e \<Rightarrow> ([Log (''Tail error: '' @ e)], Continue)
           | None \<Rightarrow>
               let sl = log_record a (now ans) (Text line)
               in (case json_Marshal sl of
                     Inl e \<Rightarrow> ([Log (''Error marshalling JSON: '' @ e)], Continue)
                   | Inr data \<Rightarrow>
                       let data = data @ [CHR 0x0A]
                       in (case write_err ans of
                             Some e \<Rightarrow>
                               ([Write data (Some e),
                                 Log (''Error writing to stream (server might be down): '' @ e)],
                                Return)
                           | None \<Rightarrow> ([Write data None], Continue))))
      | TickEv ans \<Rightarrow>
          (case write_err ans of
             Some e \<Rightarrow> ([Write beat_token (Some e), Log (''Heartbeat failed: '' @ e)], Return)
           | None \<Rightarrow> ([Write beat_token None], Continue)))"

fun loop :: "App \<Rightarrow> event list \<Rightarrow> io list \<times> status" where
  "loop a [] = ([], Waiting)"
| "loop a (ev # evs) =
     (case handle a ev of
        (out, Continue) \<Rightarrow> (case loop a evs of (out', st) \<Rightarrow> (out @ out', st))
      | (out, Return) \<Rightarrow> (out, Returned)
      | (out, Hang) \<Rightarrow> (out, Hung))"

text \<open>\<open>TailAndProcess\<close> (app.go, lines 37--111): the tail is started and the stream opened
  (the two results are answers of the environment), then the loop runs; the deferred
  \<open>stream.Close()\<close> runs when the function returns.\<close>

definition TailAndProcess ::
  "App \<Rightarrow> string option \<Rightarrow> string option \<Rightarrow> event list \<Rightarrow> io list \<times> status" where
  "TailAndProcess a tail_err stream_err evs =
     (case tail_err of
        Some e \<Rightarrow> ([Log (''Error starting tail on '' @ InputFile a @ '': '' @ e)], Exited)
      | None \<Rightarrow>
          (case stream_err of
             Some e \<Rightarrow> ([Log (''Error opening QUIC stream: '' @ e)], Returned)
           | None \<Rightarrow>
               (case loop a evs of
                  (out, st) \<Rightarrow>
                    (Log ''Stream opened, sending logs...'' # out @
                     (if st = Returned then [StreamClose] else []), st))))"

section \<open>part_000: the shipper with a pending buffer and responses\<close>

text \<open>
  \<open>App\<close> of part_000 (lines 41--49), here \<open>AppB\<close>: the pending buffer \<open>Requsts\<close>, the
  mutex \<open>Memory\<close> (\<open>True\<close> when held) and the byte buffer \<open>Lines\<close>. \<open>Lock\<close> on a held mutex
  blocks for ever (\<open>None\<close>); \<open>bytes.Buffer.WriteString\<close> always returns a nil error.
\<close>

record AppB =
  Requsts :: "SyslogLineB list"
  Memory :: bool
  Lines :: string

definition mutex_Lock :: "AppB \<Rightarrow> AppB option" where
  "mutex_Lock a = (if Memory a then None else Some (a\<lparr>Memory := True\<rparr>))"

definition mutex_Unlock :: "AppB \<Rightarrow> AppB" where
  "mutex_Unlock a = a\<lparr>Memory := False\<rparr>"

definition Buffer_WriteString :: "string \<Rightarrow> string \<Rightarrow> string \<times> string option" where
  "Buffer_WriteString buf s = (buf @ s, None)"

text \<open>\<open>AddRequest\<close> (part_000, lines 158--166): lock, append, and the deferred unlock.\<close>

definition append_Requsts :: "AppB \<Rightarrow> SyslogLineB \<Rightarrow> AppB" where
  "append_Requsts a req = a\<lparr>Requsts := Requsts a @ [req]\<rparr>"

definition AddRequest :: "AppB \<Rightarrow> SyslogLineB \<Rightarrow> AppB option" where
  "AddRequest a req =
     (case mutex_Lock a of
        None \<Rightarrow> None
      | Some a1 \<Rightarrow> Some (mutex_Unlock (append_Requsts a1 req)))"

text \<open>The response read that follows a successful write (part_000, lines 106--115 and
  131--140).\<close>

definition read_response :: "read_result \<Rightarrow> io list \<times> control" where
  "read_response r =
     (case r of
        ReadBlocks \<Rightarrow> ([Read r], Hang)
      | ReadErr e \<Rightarrow> ([Read r, Print (''Error reading from stream: '' @ e @ [CHR 0x0A])], Return)
      | ReadOk n \<Rightarrow> (Read r # (if n < 1 then [Print '' got one ''] else []), Continue))"

text \<open>The record built for a line (part_000, lines 88--94) and the heartbeat record
  (lines 118--121), whose unset fields are zero values.\<close>

definition log_recordB :: "gotime \<Rightarrow> string \<Rightarrow> SyslogLineB" where
  "log_recordB t text =
     \<lparr>Beat = False,
      TimestampB = time_String t,
      HostnameB = ''localhost'',
      ProgramB = ''myapp'',
      PidB = ''1234'',
      MessageB = text\<rparr>"

definition beat_record :: "gotime \<Rightarrow> SyslogLineB" where
  "beat_record t =
     \<lparr>Beat = True, TimestampB = time_String t, HostnameB = [], ProgramB = [], PidB = [],
      MessageB = []\<rparr>"

text \<open>One iteration of the loop of \<open>TailAndProcess\<close> (part_000, lines 71--142).\<close>

definition handleB :: "AppB \<Rightarrow> event \<Rightarrow> io list \<times> AppB \<times> control" where
  "handleB a ev =
     (case ev of
        ChanClosed \<Rightarrow> ([Print (''Tail stopped'' @ [CHR 0x0A])], a, Return)
      | LineEv line ans \<Rightarrow>
          (case mutex_Lock a of
             None \<Rightarrow> ([], a, Hang)
           | Some a1 \<Rightarrow>
               (case Buffer_WriteString (Lines a1) (Text line @ [CHR 0x0A]) of
                  (buf, Some e) \<Rightarrow>
                    ([Print (''Error writing to buffer: '' @ e @ [CHR 0x0A])],
                     mutex_Unlock (a1\<lparr>Lines := buf\<rparr>), Continue)
                | (buf, None) \<Rightarrow>
                    let a2 = mutex_Unlock (a1\<lparr>Lines := buf\<rparr>);
                        sl = log_recordB (now ans) (Text line)
                    in (case json_MarshalB sl of
                          Inl e \<Rightarrow>
                            ([Print (''Error marshalling syslog line: '' @ e @ [CHR 0x0A])], a2, Continue)
                        | Inr data \<Rightarrow>
                            (case write_err ans of
                               Some e \<Rightarrow>
                                 (case AddRequest a2 sl of
                                    None \<Rightarrow> ([Write data (Some e)], a2, Hang)
                                  | Some a3 \<Rightarrow>
                                      ([Write data (Some e),
                                        Print (''Error writing to stream: '' @ e @ [CHR 0x0A])],
                                       a3, Return))
                             | None \<Rightarrow>
                                 (case read_response (read_res ans) of
                                    (out, c) \<Rightarrow> (Write data None # out, a2, c))))))
      | TickEv ans \<Rightarrow>
          (case json_MarshalB (beat_record (now ans)) of
             Inl e \<Rightarrow> ([Print (''Error marshalling beat data: '' @ e @ [CHR 0x0A])], a, Continue)
           | Inr data \<Rightarrow>
               (case write_err ans of
                  Some e \<Rightarrow>
                    ([Write data (Some e), Print (''Error writing to stream: '' @ e @ [CHR 0x0A])],
                     a, Return)
                | None \<Rightarrow>
                    (case read_response (read_res ans) of
                       (out, c) \<Rightarrow> (Write data None # out, a, c)))))"

fun loopB :: "AppB \<Rightarrow> event list \<Rightarrow> io list \<times> AppB \<times> status" where
  "loopB a [] = ([], a, Waiting)"
| "loopB a (ev # evs) =
     (case handleB a ev of
        (out, a', Continue) \<Rightarrow> (case loopB a' evs of (out', r) \<Rightarrow> (out @ out', r))
      | (out, a', Return) \<Rightarrow> (out, a', Returned)
      | (out, a', Hang) \<Rightarrow> (out, a', Hung))"

text \<open>\<open>TailAndProcess\<close> (part_000, lines 51--156).\<close>

definition TailAndProcessB ::
  "AppB \<Rightarrow> string option \<Rightarrow> string option \<Rightarrow> event list \<Rightarrow> io list \<times> AppB \<times> status" where
  "TailAndProcessB a tail_err stream_err evs =
     (case tail_err of
        Some e \<Rightarrow> ([Print (''Error tailing file: '' @ e @ [CHR 0x0A])], a, Returned)
      | None \<Rightarrow>
          (case stream_err of
             Some e \<Rightarrow> ([Print (''Error opening stream: '' @ e @ [CHR 0x0A])], a, Returned)
           | None \<Rightarrow>
               (case loopB a evs of
                  (out, a', st) \<Rightarrow>
                    (out @ (if st = Returned then [StreamClose] else []), a', st))))"

text \<open>The \<open>App\<close> that \<open>main\<close> builds (part_000, lines 184--190): \<open>make([]SyslogLine, 500)\<close>
  is a slice of length 500 whose entries are zero values.\<close>

definition zero_SyslogLineB :: SyslogLineB where
  "zero_SyslogLineB =
     \<lparr>Beat = False, TimestampB = [], HostnameB = [], ProgramB = [], PidB = [], MessageB = []\<rparr>"

definition main_app :: AppB where
  "main_app = \<lparr>Requsts = replicate 500 zero_SyslogLineB, Memory = False, Lines = []\<rparr>"

section \<open>The order of events in real time\<close>

text \<open>
  The ticker of app.go, line 61, fires at every multiple of its period after its creation,
  and its channel holds one tick: a tick that falls due while the previous one has not been
  received is dropped. The loop enters \<open>select\<close> right after the ticker is created, and is
  from then on either blocked in \<open>select\<close> or busy handling one event.

  Instants are in milliseconds since the creation of the ticker. A \<open>ticker\<close> gives the
  period, the answers of the environment to the handling of a heartbeat, and how long that
  handling takes. A line is given as the instant from which the tail library offers it on
  its channel, the event, and how long its handling takes.

  \<open>schedule_from\<close> lists the events in the order \<open>select\<close> returns them, up to the last
  line. Its state is the instant \<open>clock\<close> at which the loop is in \<open>select\<close>, whether a tick
  is \<open>pending\<close> in the channel, and the number \<open>fired\<close> of ticks accounted for. When the
  first line and a tick are both ready, \<open>select\<close> picks one of them at random: \<open>picks\<close>
  lists these choices (\<open>True\<close> for the tick), and the line is taken once the list is
  used up. When neither is ready, the loop sleeps until the earlier of the line and the
  next tick. \<open>time.NewTicker\<close> panics on a period that is not positive; the list is then
  empty.
\<close>

definition ticker_period :: nat where
  "ticker_period = 5000"

record ticker =
  period :: nat
  tick_ans :: answers
  tick_busy :: nat

function schedule_from ::
  "ticker \<Rightarrow> bool list \<Rightarrow> nat \<Rightarrow> bool \<Rightarrow> nat \<Rightarrow> (nat \<times> event \<times> nat) list \<Rightarrow> event list" where
  "schedule_from tk picks clock pending fired lines =
     (if period tk = 0 then []
      else
        (case lines of
           [] \<Rightarrow> []
         | (t, ev, busy) # rest \<Rightarrow>
             let due = clock div period tk;
                 tick_ready = (pending \<or> fired < due)
             in if t \<le> clock then
                  (if tick_ready then
                     (case picks of
                        True # ps \<Rightarrow>
                          TickEv (tick_ans tk) #
                          schedule_from tk ps (clock + tick_busy tk) False due lines
                      | _ \<Rightarrow> ev # schedule_from tk (tl picks) (clock + busy) True due rest)
                   else ev # schedule_from tk picks (clock + busy) False due rest)
                else if tick_ready then
                  TickEv (tick_ans tk) #
                  schedule_from tk picks (clock + tick_busy tk) False due lines
                else schedule_from tk picks (min t ((due + 1) * period tk)) False due lines))"
  by pat_completeness auto
termination
proof -
  have later: "clock < p + clock div p * p" if "0 < p" for clock p :: nat
    using that dividend_less_div_times [of p clock] by (simp add: ac_simps)
  have wait: "t - (p + clock div p * p) < t - clock"
    if "0 < p" "\<not> t \<le> p + clock div p * p" for t clock p :: nat
    using that later [of p clock] by simp
  have busy: "t - (clock + b) < t - clock"
    if "\<not> t \<le> clock" "clock div p < (clock + b) div p" for t clock p b :: nat
    using that by (cases b) simp_all
  show ?thesis
    by (relation "measures
        [\<lambda>(tk, picks, clock, pending, fired, lines). length lines,
         \<lambda>(tk, picks, clock, pending, fired, lines). length picks,
         \<lambda>(tk, picks, clock, pending, fired, lines).
            (case lines of [] \<Rightarrow> 0 | (t, ev, busy) # rest \<Rightarrow> t - clock),
         \<lambda>(tk, picks, clock, pending, fired, lines).
            (if pending \<or> fired < clock div period tk then 1 else 0)]")
       (auto simp: min_def intro: busy wait)
qed

declare schedule_from.simps [simp del]

definition schedule :: "ticker \<Rightarrow> bool list \<Rightarrow> (nat \<times> event \<times> nat) list \<Rightarrow> event list" where
  "schedule tk picks lines = schedule_from tk picks 0 False 0 lines"

section \<open>Notions used to state the properties\<close>

text \<open>The state of part_000 after the locked prefix of the line branch (lines 79--86), when
  the mutex was free: the line and a newline are appended to \<open>Lines\<close>.\<close>

definition after_line :: "AppB \<Rightarrow> tail_Line \<Rightarrow> AppB" where
  "after_line b line = b\<lparr>Lines := Lines b @ Text line @ [CHR 0x0A]\<rparr>"

text \<open>A trace is \<open>clean\<close> when none of its writes failed.\<close>

definition failed_write :: "io \<Rightarrow> bool" where
  "failed_write x = (case x of Write p (Some e) \<Rightarrow> True | _ \<Rightarrow> False)"

definition clean :: "io list \<Rightarrow> bool" where
  "clean out = (\<not> list_ex failed_write out)"

text \<open>How the pending buffer of part_000 changes when the write of the payload \<open>p\<close> fails: the
  record of a line is appended, a heartbeat leaves the buffer as it is.\<close>

definition buffered :: "string \<Rightarrow> SyslogLineB list \<Rightarrow> SyslogLineB list \<Rightarrow> bool" where
  "buffered p before after =
     ((\<exists>t text. p = encodeB (log_recordB t text) \<and> after = before @ [log_recordB t text]) \<or>
      (\<exists>t. p = encodeB (beat_record t) \<and> after = before))"

text \<open>
  The \<open>wire\<close> of a trace lists the payloads of its successful writes. \<open>observed\<close> keeps the
  events that precede the closing of the tail channel. \<open>lines_of\<close> lists the text and the
  clock of the line events that carry no error, \<open>all_lines\<close> of all line events. An event is
  \<open>write_ok\<close> (\<open>read_ok\<close>) when the environment lets the write (the read) of its handling
  succeed. \<open>is_beatB\<close> recognises a heartbeat of part_000 by its first bytes, and
  \<open>failed_log_writes\<close> counts the failed writes of a trace of part_000 whose payload is
  not a heartbeat.
\<close>

definition wire :: "io list \<Rightarrow> string list" where
  "wire out = List.map_filter (\<lambda>x. case x of Write p None \<Rightarrow> Some p | _ \<Rightarrow> None) out"

definition observed :: "event list \<Rightarrow> event list" where
  "observed evs = takeWhile (\<lambda>ev. ev \<noteq> ChanClosed) evs"

definition lines_of :: "event list \<Rightarrow> (string \<times> gotime) list" where
  "lines_of evs =
     List.map_filter
       (\<lambda>ev. case ev of
                LineEv line ans \<Rightarrow> (if Err line = None then Some (Text line, now ans) else None)
              | _ \<Rightarrow> None) evs"

definition all_lines :: "event list \<Rightarrow> (string \<times> gotime) list" where
  "all_lines evs =
     List.map_filter (\<lambda>ev. case ev of LineEv line ans \<Rightarrow> Some (Text line, now ans) | _ \<Rightarrow> None) evs"

definition write_ok :: "event \<Rightarrow> bool" where
  "write_ok ev =
     (case ev of LineEv line ans \<Rightarrow> write_err ans = None
               | TickEv ans \<Rightarrow> write_err ans = None
               | ChanClosed \<Rightarrow> True)"

definition read_ok :: "event \<Rightarrow> bool" where
  "read_ok ev =
     (case ev of LineEv line ans \<Rightarrow> (case read_res ans of ReadOk n \<Rightarrow> True | _ \<Rightarrow> False)
               | TickEv ans \<Rightarrow> (case read_res ans of ReadOk n \<Rightarrow> True | _ \<Rightarrow> False)
               | ChanClosed \<Rightarrow> True)"

definition is_beatB :: "string \<Rightarrow> bool" where
  \<open>is_beatB p = (take 12 p = ''{"beat":true'')\<close>


text \<open>Concrete inputs for the examples.\<close>

definition example_time :: gotime where
  "example_time =
     \<lparr>year = 2026, month = 11, day = 1, hour = 9, minute = 5, second = 7, nsec = 120000000,
      zone_offset = - 18000, zone_name = ''EST'', mono = Some 1234567890\<rparr>"

definition example_app :: App where
  "example_app = \<lparr>InputFile = ''log.txt'', App.Hostname = ''web-1'', App.Pid = 4242\<rparr>"

definition ok_answers :: "gotime \<Rightarrow> answers" where
  "ok_answers t = \<lparr>now = t, write_err = None, read_res = ReadOk 2\<rparr>"

definition failing_answers :: "gotime \<Rightarrow> answers" where
  "failing_answers t =
     \<lparr>now = t, write_err = Some ''timeout: no recent network activity'', read_res = ReadOk 2\<rparr>"


definition example_events :: "event list" where
  "example_events =
     [LineEv \<lparr>Text = ''first'', Err = None\<rparr> (ok_answers example_time),
      TickEv (ok_answers example_time),
      LineEv \<lparr>Text = ''second'', Err = None\<rparr> (ok_answers example_time)]"

text \<open>A line of a Latin-1 file: \<open>caf\<close> followed by the byte \<open>0xE9\<close>, which is not UTF-8.\<close>

definition latin1_line :: string where
  "latin1_line = [CHR ''c'', CHR ''a'', CHR ''f'', CHR 0xE9]"

section \<open>Well-formed UTF-8\<close>

text \<open>
  \<open>utf8.ValidString\<close>: a string is well-formed when decoding it rune by rune never meets a
  byte that starts no sequence. \<open>ToValidUTF8\<close> is what \<open>appendString\<close> makes of the bytes of
  a string before it escapes them: each such byte is replaced by the three bytes of
  U+FFFD, everything else is kept.
\<close>

function ValidString :: "string \<Rightarrow> bool" where
  "ValidString [] = True"
| "ValidString (c # cs) =
     (if byte c < 0x80 then ValidString cs
      else
        (case DecodeRuneInString (take 4 (c # cs)) of
           (r, n) \<Rightarrow> \<not> (r = RuneError \<and> n = 1) \<and> ValidString (drop n (c # cs))))"
  by pat_completeness auto
termination
proof -
  have pos: "0 < n" if "(r, n) = DecodeRuneInString (c # s)" for r n c s
    using that by (auto simp: DecodeRuneInString_def Let_def split: if_splits)
  show ?thesis
    by (relation "measure length") (auto dest: pos)
qed

function ToValidUTF8 :: "string \<Rightarrow> string" where
  "ToValidUTF8 [] = []"
| "ToValidUTF8 (c # cs) =
     (if byte c < 0x80 then c # ToValidUTF8 cs
      else
        (case DecodeRuneInString (take 4 (c # cs)) of
           (r, n) \<Rightarrow>
             if r = RuneError \<and> n = 1 then
               [CHR 0xEF, CHR 0xBF, CHR 0xBD] @ ToValidUTF8 (drop n (c # cs))
             else take n (c # cs) @ ToValidUTF8 (drop n (c # cs))))"
  by pat_completeness auto
termination
proof -
  have pos: "0 < n" if "(r, n) = DecodeRuneInString (c # s)" for r n c s
    using that by (auto simp: DecodeRuneInString_def Let_def split: if_splits)
  show ?thesis
    by (relation "measure length") (auto dest: pos)
qed

section \<open>The receiver's decoder\<close>

text \<open>
  Modelled from the spec: the receiver (the collector) is not part of the repository. The
  spec's wire protocol makes each record one JSON object whose members are strings, an
  integer \<open>pid\<close> and a boolean \<open>beat\<close>, and its round-trip property speaks of a conforming
  receiver. The decoder below reads such an object as RFC 8259 defines it, in the compact
  form \<open>json.Marshal\<close> writes (no white space between tokens). It accepts no nested value,
  no fraction or exponent, and no escape of a surrogate half, none of which
  \<open>json.Marshal\<close> produces for these records; where it answers, every conforming decoder
  answers the same.
\<close>

datatype jvalue = JString string | JInt int | JBool bool

text \<open>Modelled from the spec: the four hexadecimal digits of a Unicode escape, and the UTF-8
  encoding of the code point they denote (below \<open>0x10000\<close>).\<close>

definition hex_val :: "char \<Rightarrow> nat option" where
  "hex_val c =
     (let b = byte c
      in if 48 \<le> b \<and> b \<le> 57 then Some (b - 48)
         else if 97 \<le> b \<and> b \<le> 102 then Some (b - 87)
         else if 65 \<le> b \<and> b \<le> 70 then Some (b - 55)
         else None)"

definition hex4 :: "char \<Rightarrow> char \<Rightarrow> char \<Rightarrow> char \<Rightarrow> nat option" where
  "hex4 h1 h2 h3 h4 =
     (case (hex_val h1, hex_val h2, hex_val h3, hex_val h4) of
        (Some a, Some b, Some c, Some d) \<Rightarrow> Some (((a * 16 + b) * 16 + c) * 16 + d)
      | _ \<Rightarrow> None)"

definition EncodeRune :: "nat \<Rightarrow> string" where
  "EncodeRune r =
     (if r < 0x80 then [char_of r]
      else if r < 0x800 then [char_of (0xC0 + r div 64), char_of (0x80 + r mod 64)]
      else [char_of (0xE0 + r div 4096), char_of (0x80 + r div 64 mod 64),
            char_of (0x80 + r mod 64)])"

text \<open>Modelled from the spec: the two-character escapes of a JSON string.\<close>

definition unescape :: "char \<Rightarrow> char option" where
  "unescape e =
     (if e = CHR 0x22 \<or> e = CHR 0x5C \<or> e = CHR ''/'' then Some e
      else if e = CHR ''b'' then Some (CHR 0x08)
      else if e = CHR ''f'' then Some (CHR 0x0C)
      else if e = CHR ''n'' then Some (CHR 0x0A)
      else if e = CHR ''r'' then Some (CHR 0x0D)
      else if e = CHR ''t'' then Some (CHR 0x09)
      else None)"

text \<open>Modelled from the spec: the characters of a JSON string after its opening quote, up to
  the closing quote; the result is the decoded string and the input that follows. A raw
  control character is an error.\<close>

fun decode_chars :: "string \<Rightarrow> (string \<times> string) option" where
  "decode_chars [] = None"
| "decode_chars (c # cs) =
     (if c = CHR 0x22 then Some ([], cs)
      else if c = CHR 0x5C then
        (case cs of
           [] \<Rightarrow> None
         | e # cs1 \<Rightarrow>
             if e = CHR ''u'' then
               (case cs1 of
                  h1 # h2 # h3 # h4 # cs2 \<Rightarrow>
                    (case hex4 h1 h2 h3 h4 of
                       None \<Rightarrow> None
                     | Some r \<Rightarrow>
                         if 0xD800 \<le> r \<and> r < 0xE000 then None
                         else map_option (\<lambda>(s, rest). (EncodeRune r @ s, rest)) (decode_chars cs2))
                | _ \<Rightarrow> None)
             else
               (case unescape e of
                  None \<Rightarrow> None
                | Some b \<Rightarrow> map_option (\<lambda>(s, rest). (b # s, rest)) (decode_chars cs1)))
      else if byte c < 0x20 then None
      else map_option (\<lambda>(s, rest). (c # s, rest)) (decode_chars cs))"

text \<open>Modelled from the spec: a JSON string, an integer without leading zeros, and a value
  (a string, \<open>true\<close>, \<open>false\<close> or an integer).\<close>

definition decode_string :: "string \<Rightarrow> (string \<times> string) option" where
  "decode_string s =
     (case s of [] \<Rightarrow> None | c # cs \<Rightarrow> if c = CHR 0x22 then decode_chars cs else None)"

definition decode_int :: "string \<Rightarrow> (int \<times> string) option" where
  "decode_int s =
     (let neg = (take 1 s = ''-'');
          s1 = (if neg then drop 1 s else s);
          ds = takeWhile is_digit s1;
          rest = dropWhile is_digit s1
      in if ds = [] \<or> (1 < length ds \<and> hd ds = CHR ''0'') then None
         else Some (if neg then - int (num_val ds) else int (num_val ds), rest))"

definition decode_value :: "string \<Rightarrow> (jvalue \<times> string) option" where
  "decode_value s =
     (if take 1 s = [CHR 0x22] then map_option (\<lambda>(v, rest). (JString v, rest)) (decode_string s)
      else if take 4 s = ''true'' then Some (JBool True, drop 4 s)
      else if take 5 s = ''false'' then Some (JBool False, drop 5 s)
      else map_option (\<lambda>(i, rest). (JInt i, rest)) (decode_int s))"

text \<open>Modelled from the spec: the members of an object after its opening brace, up to the
  closing brace, in the order of the input.\<close>

function decode_members :: "string \<Rightarrow> ((string \<times> jvalue) list \<times> string) option" where
  "decode_members s =
     (case decode_string s of
        None \<Rightarrow> None
      | Some (k, s1) \<Rightarrow>
          if take 1 s1 \<noteq> '':'' then None
          else
            (case decode_value (drop 1 s1) of
               None \<Rightarrow> None
             | Some (v, s2) \<Rightarrow>
                 if take 1 s2 = ''}'' then Some ([(k, v)], drop 1 s2)
                 else if take 1 s2 = '','' then
                   map_option (\<lambda>(ms, rest). ((k, v) # ms, rest)) (decode_members (drop 1 s2))
                 else None))"
  by pat_completeness auto
termination
proof -
  have chars: "length rest < length s" if "decode_chars s = Some (x, rest)" for s x rest
    using that
  proof (induction s arbitrary: x rest rule: length_induct)
    case (1 s)
    have IH: "length r < length ys" if "length ys < length s" "decode_chars ys = Some (y, r)"
      for ys y r using that "1.IH" by blast
    show ?case
    proof (cases s)
      case Nil
      with "1.prems" show ?thesis by simp
    next
      case (Cons c cs)
      with "1.prems" have "decode_chars (c # cs) = Some (x, rest)" by simp
      then show ?thesis unfolding Cons
        by (auto split: if_splits list.splits option.splits
              dest!: IH [unfolded Cons, rotated])
    qed
  qed
  have str: "length rest < length s" if "decode_string s = Some (x, rest)" for s x rest
    using that chars by (fastforce simp: decode_string_def split: list.splits if_splits)
  have val: "length rest \<le> length s" if "decode_value s = Some (v, rest)" for s v rest
    using that str
    by (fastforce simp: decode_value_def decode_int_def Let_def length_dropWhile_le
          le_trans [OF length_dropWhile_le] split: if_splits)
  show ?thesis
  proof (relation "measure length", goal_cases)
    case 1
    show ?case by simp
  next
    case (2 s x2 k s1 x2a v s2)
    then have "length s1 < length s" "length s2 \<le> length (drop 1 s1)"
      using str [of s k s1] val [of "drop 1 s1" v s2] by simp_all
    then show ?case by simp
  qed
qed

declare decode_members.simps [simp del]

text \<open>Modelled from the spec: one record is one object, with nothing after its closing
  brace.\<close>

definition decode_object :: "string \<Rightarrow> (string \<times> jvalue) list option" where
  "decode_object s =
     (if take 1 s \<noteq> ''{'' then None
      else if drop 1 s = ''}'' then Some []
      else (case decode_members (drop 1 s) of
              Some (ms, []) \<Rightarrow> Some ms
            | _ \<Rightarrow> None))"

text \<open>Modelled from the spec: the receiver's binding of a decoded object to the record of
  app.go: the five members are looked up by name, with the types of the struct.\<close>

definition get_string :: "(string \<times> jvalue) list \<Rightarrow> string \<Rightarrow> string option" where
  "get_string ms k = (case map_of ms k of Some (JString v) \<Rightarrow> Some v | _ \<Rightarrow> None)"

definition get_int :: "(string \<times> jvalue) list \<Rightarrow> string \<Rightarrow> int option" where
  "get_int ms k = (case map_of ms k of Some (JInt i) \<Rightarrow> Some i | _ \<Rightarrow> None)"

definition decode_SyslogLine :: "string \<Rightarrow> SyslogLine option" where
  "decode_SyslogLine s =
     (case decode_object s of
        None \<Rightarrow> None
      | Some ms \<Rightarrow>
          (case (get_string ms ''timestamp'', get_string ms ''hostname'',
                 get_string ms ''program'', get_int ms ''pid'', get_string ms ''message'') of
             (Some t, Some h, Some p, Some i, Some m) \<Rightarrow>
               Some \<lparr>Timestamp = t, SyslogLine.Hostname = h, Program = p, SyslogLine.Pid = i,
                     Message = m\<rparr>
           | _ \<Rightarrow> None))"

text \<open>Modelled from the spec: what the receiver reads as the message of one payload. A
  record of app.go ends with the newline that delimits it, and the receiver decodes the
  bytes before the newline; a record of part_000 is the payload itself, and its message is
  the string member \<open>message\<close> of the object.\<close>

definition received :: "string \<Rightarrow> string option" where
  "received p =
     (if p \<noteq> [] \<and> last p = CHR 0x0A then map_option Message (decode_SyslogLine (butlast p))
      else None)"

definition receivedB :: "string \<Rightarrow> string option" where
  "receivedB p = (case decode_object p of None \<Rightarrow> None | Some ms \<Rightarrow> get_string ms ''message'')"

text \<open>One member \<open>"k":v\<close> of an encoded object, and the characters a key consists of when it
  needs no escape.\<close>

definition member :: "string \<Rightarrow> string \<Rightarrow> string" where
  "member k v = CHR 0x22 # k @ CHR 0x22 # CHR '':'' # v"

definition plain :: "char \<Rightarrow> bool" where
  "plain x = (0x20 \<le> byte x \<and> x \<noteq> CHR 0x22 \<and> x \<noteq> CHR 0x5C)"

section \<open>Evaluation of the concrete examples\<close>

lemma dec_nat_lt10: "n < 10 \<Longrightarrow> dec_nat n = [digit n]"
  by (subst dec_nat.simps) simp

lemma dec_nat_ge10: "10 \<le> n \<Longrightarrow> dec_nat n = dec_nat (n div 10) @ [digit (n mod 10)]"
  by (subst dec_nat.simps) simp

lemmas time_eval = Format_RFC3339_def time_String_def date_part_def clock_part_def zone_hhmm_def
  appendInt_def quo_def digit_def dec_nat_lt10 dec_nat_ge10 frac_part_def mono_part_def

lemmas json_eval = encode_def encodeB_def appendString_def htmlSafe_def escape_def byte_def hex_def
  DecodeRuneInString_def seq_len_def accept_lo_def accept_hi_def is_cont_def RuneError_def Itoa_def

section \<open>One iteration of either loop\<close>

lemma handle_err_line:
  "Err line = Some e \<Longrightarrow> handle a (LineEv line ans) = ([Log (''Tail error: '' @ e)], Continue)"
  by (simp add: handle_def)

lemma handle_line_ok:
  "Err line = None \<Longrightarrow> write_err ans = None \<Longrightarrow>
   handle a (LineEv line ans) =
     ([Write (encode (log_record a (now ans) (Text line)) @ [CHR 0x0A]) None], Continue)"
  by (simp add: handle_def json_Marshal_def)

lemma handle_tick_ok:
  "write_err ans = None \<Longrightarrow> handle a (TickEv ans) = ([Write beat_token None], Continue)"
  by (simp add: handle_def)

lemma handle_line_fail:
  "Err line = None \<Longrightarrow> write_err ans = Some e \<Longrightarrow>
   handle a (LineEv line ans) =
     ([Write (encode (log_record a (now ans) (Text line)) @ [CHR 0x0A]) (Some e),
       Log (''Error writing to stream (server might be down): '' @ e)], Return)"
  by (simp add: handle_def json_Marshal_def)

lemma handle_tick_fail:
  "write_err ans = Some e \<Longrightarrow>
   handle a (TickEv ans) = ([Write beat_token (Some e), Log (''Heartbeat failed: '' @ e)], Return)"
  by (simp add: handle_def)

lemma handle_closed:
  "handle a ChanClosed = ([Log ''Tail channel closed, exiting.''], Return)"
  by (simp add: handle_def)

lemma unlock_after_line:
  "\<not> Memory b \<Longrightarrow> mutex_Unlock (b\<lparr>Memory := True, Lines := Lines b @ Text line @ [CHR 0x0A]\<rparr>) = after_line b line"
  by (cases b) (simp add: mutex_Unlock_def after_line_def)

lemma AddRequest_free:
  "\<not> Memory b \<Longrightarrow> AddRequest b req = Some (b\<lparr>Requsts := Requsts b @ [req]\<rparr>)"
  by (cases b) (simp add: AddRequest_def mutex_Lock_def mutex_Unlock_def append_Requsts_def)

lemma Memory_after_line [simp]: "Memory (after_line b line) = Memory b"
  by (simp add: after_line_def)

lemma handleB_line_fail:
  "\<not> Memory b \<Longrightarrow> write_err ans = Some e \<Longrightarrow>
   handleB b (LineEv line ans) =
     ([Write (encodeB (log_recordB (now ans) (Text line))) (Some e),
       Print (''Error writing to stream: '' @ e @ [CHR 0x0A])],
      (after_line b line)\<lparr>Requsts := Requsts b @ [log_recordB (now ans) (Text line)]\<rparr>, Return)"
  by (simp add: handleB_def mutex_Lock_def Buffer_WriteString_def json_MarshalB_def
      unlock_after_line AddRequest_free after_line_def Let_def)

lemma handleB_line_ok:
  "\<not> Memory b \<Longrightarrow> write_err ans = None \<Longrightarrow>
   handleB b (LineEv line ans) =
     (Write (encodeB (log_recordB (now ans) (Text line))) None # fst (read_response (read_res ans)),
      after_line b line, snd (read_response (read_res ans)))"
  by (simp add: handleB_def mutex_Lock_def Buffer_WriteString_def json_MarshalB_def
      unlock_after_line Let_def split: prod.splits)

lemma handleB_tick_fail:
  "write_err ans = Some e \<Longrightarrow>
   handleB b (TickEv ans) =
     ([Write (encodeB (beat_record (now ans))) (Some e),
       Print (''Error writing to stream: '' @ e @ [CHR 0x0A])], b, Return)"
  by (simp add: handleB_def json_MarshalB_def)

lemma handleB_tick_ok:
  "write_err ans = None \<Longrightarrow>
   handleB b (TickEv ans) =
     (Write (encodeB (beat_record (now ans))) None # fst (read_response (read_res ans)),
      b, snd (read_response (read_res ans)))"
  by (simp add: handleB_def json_MarshalB_def split: prod.splits)

lemma handleB_closed:
  "handleB b ChanClosed = ([Print (''Tail stopped'' @ [CHR 0x0A])], b, Return)"
  by (simp add: handleB_def)

text \<open>The mutex is free whenever the loop waits for an event.\<close>

lemma handleB_Memory:
  assumes "\<not> Memory b" "handleB b ev = (out, b', c)"
  shows "\<not> Memory b'"
proof (cases ev)
  case (LineEv line ans)
  with assms show ?thesis
    by (cases "write_err ans") (auto simp: handleB_line_fail handleB_line_ok)
next
  case ChanClosed
  with assms show ?thesis by (simp add: handleB_closed)
next
  case (TickEv ans)
  with assms show ?thesis
    by (cases "write_err ans") (auto simp: handleB_tick_fail handleB_tick_ok)
qed

lemma loopB_Memory:
  "\<not> Memory b \<Longrightarrow> loopB b evs = (out, b', st) \<Longrightarrow> \<not> Memory b'"
proof (induction evs arbitrary: b out)
  case Nil
  then show ?case by simp
next
  case (Cons ev evs)
  obtain o1 b1 c where h: "handleB b ev = (o1, b1, c)"
    by (cases "handleB b ev") auto
  have m1: "\<not> Memory b1" using handleB_Memory [OF Cons.prems(1) h] .
  show ?case
  proof (cases c)
    case Continue
    obtain o2 b2 s2 where l: "loopB b1 evs = (o2, b2, s2)"
      by (cases "loopB b1 evs") auto
    from Cons.prems(2) h Continue l have "loopB b1 evs = (o2, b', st)" by simp
    then show ?thesis by (rule Cons.IH [OF m1])
  next
    case Return
    with Cons.prems(2) h m1 show ?thesis by simp
  next
    case Hang
    with Cons.prems(2) h m1 show ?thesis by simp
  qed
qed

text \<open>Unfolding the loops by one event.\<close>

lemma loop_Continue:
  "handle a ev = (out, Continue) \<Longrightarrow>
   loop a (ev # evs) = (out @ fst (loop a evs), snd (loop a evs))"
  by (simp split: prod.splits)

lemma loop_Return: "handle a ev = (out, Return) \<Longrightarrow> loop a (ev # evs) = (out, Returned)"
  by simp

lemma loopB_Continue:
  "handleB b ev = (out, b', Continue) \<Longrightarrow>
   loopB b (ev # evs) = (out @ fst (loopB b' evs), snd (loopB b' evs))"
  by (simp split: prod.splits)

lemma loopB_Return:
  "handleB b ev = (out, b', Return) \<Longrightarrow> loopB b (ev # evs) = (out, b', Returned)"
  by simp

text \<open>The bytes of a record of app.go.\<close>

lemma teller_bytes:
  \<open>encode (log_record a t text) =
     ''{"timestamp":'' @ appendString (Format_RFC3339 t) @
     '',"hostname":'' @ appendString (App.Hostname a) @
     '',"program":"teller","pid":'' @ Itoa (App.Pid a) @
     '',"message":'' @ appendString text @ ''}''\<close>
  by (simp add: encode_def log_record_def appendString_def htmlSafe_def byte_def)

text \<open>A run that is still waiting goes on with the events that follow.\<close>

lemma loop_append:
  "snd (loop a pre) = Waiting \<Longrightarrow>
   loop a (pre @ evs) = (fst (loop a pre) @ fst (loop a evs), snd (loop a evs))"
proof (induction pre)
  case Nil
  then show ?case by simp
next
  case (Cons ev pre)
  obtain o1 c where h: "handle a ev = (o1, c)" by (cases "handle a ev") auto
  show ?case
  proof (cases c)
    case Continue
    with h Cons.prems have "snd (loop a pre) = Waiting" by (simp split: prod.splits)
    from Cons.IH [OF this] h Continue show ?thesis by (simp split: prod.splits)
  next
    case Return
    with h Cons.prems show ?thesis by simp
  next
    case Hang
    with h Cons.prems show ?thesis by simp
  qed
qed

lemma loopB_append:
  "snd (snd (loopB b pre)) = Waiting \<Longrightarrow>
   loopB b (pre @ evs) =
     (fst (loopB b pre) @ fst (loopB (fst (snd (loopB b pre))) evs),
      snd (loopB (fst (snd (loopB b pre))) evs))"
proof (induction pre arbitrary: b)
  case Nil
  then show ?case by simp
next
  case (Cons ev pre)
  obtain o1 b1 c where h: "handleB b ev = (o1, b1, c)" by (cases "handleB b ev") auto
  show ?case
  proof (cases c)
    case Continue
    with h Cons.prems have "snd (snd (loopB b1 pre)) = Waiting" by (simp split: prod.splits)
    from Cons.IH [OF this] h Continue show ?thesis by (simp split: prod.splits)
  next
    case Return
    with h Cons.prems show ?thesis by simp
  next
    case Hang
    with h Cons.prems show ?thesis by simp
  qed
qed

section \<open>The bytes of an encoding\<close>




lemma DecodeRune_multibyte:
  assumes "0x80 \<le> byte c" "DecodeRuneInString (c # cs) = (r, n)" "\<not> (r = RuneError \<and> n = 1)"
  shows "2 \<le> n \<and> n \<le> 4 \<and> n \<le> length (c # cs) \<and> (\<forall>x \<in> set (take n (c # cs)). 0x80 \<le> byte x)"
proof (cases cs)
  case Nil
  with assms show ?thesis
    by (auto simp: DecodeRuneInString_def Let_def seq_len_def split: if_splits)
next
  case c1: (Cons c1 cs1)
  show ?thesis
  proof (cases cs1)
    case Nil
    with c1 assms show ?thesis
      by (auto simp: DecodeRuneInString_def Let_def seq_len_def accept_lo_def split: if_splits)
  next
    case c2: (Cons c2 cs2)
    show ?thesis
    proof (cases cs2)
      case Nil
      with c1 c2 assms show ?thesis
        by (auto simp: DecodeRuneInString_def Let_def seq_len_def accept_lo_def is_cont_def split: if_splits)
    next
      case c3: (Cons c3 cs3)
      with c1 c2 assms show ?thesis
        by (auto simp: DecodeRuneInString_def Let_def seq_len_def accept_lo_def is_cont_def split: if_splits)
    qed
  qed
qed











lemma encode_not_beat: "encode sl @ [CHR 0x0A] \<noteq> beat_token"
  by (simp add: encode_def beat_token_def)

section \<open>Decoding an encoded string\<close>

text \<open>The reference decoder reads back what \<open>appendString\<close> wrote: the string itself where
  it is well-formed UTF-8, and U+FFFD in place of every byte that is not.\<close>

lemma hex_val_hex:
  assumes "k < 16"
  shows "hex_val (hex k) = Some k"
proof -
  from assms have "k \<in> {15, 14, 13, 12, 11, 10, 9, 8, 7, 6, 5, 4, 3, 2, 1, 0}"
    by (simp; arith)
  then show ?thesis
    by (elim insertE emptyE) (simp_all add: hex_def hex_val_def byte_def)
qed

lemma char_of_byte [simp]: "char_of (byte c) = c"
  by (simp add: byte_def)

lemma byte_eqD: "byte c = n \<Longrightarrow> c = char_of n"
  by (auto simp: byte_def)

lemma seq_len_cases:
  "seq_len b = 0 \<or> seq_len b = 1 \<or> seq_len b = 2 \<or> seq_len b = 3 \<or> seq_len b = 4"
  by (simp add: seq_len_def)

lemma Decode_invalid: "seq_len (byte c) = 0 \<Longrightarrow> DecodeRuneInString (c # cs) = (RuneError, 1)"
  by (simp add: DecodeRuneInString_def)

lemma Decode_short:
  "1 < seq_len (byte c) \<Longrightarrow> length (c # cs) < seq_len (byte c) \<Longrightarrow>
   DecodeRuneInString (c # cs) = (RuneError, 1)"
  by (simp add: DecodeRuneInString_def)

lemma Decode2:
  "seq_len (byte c) = 2 \<Longrightarrow>
   DecodeRuneInString (c # c1 # t) =
     (if byte c1 < accept_lo (byte c) \<or> accept_hi (byte c) < byte c1 then (RuneError, 1)
      else (byte c mod 32 * 64 + byte c1 mod 64, 2))"
  by (simp add: DecodeRuneInString_def)

lemma Decode3:
  "seq_len (byte c) = 3 \<Longrightarrow>
   DecodeRuneInString (c # c1 # c2 # t) =
     (if byte c1 < accept_lo (byte c) \<or> accept_hi (byte c) < byte c1 then (RuneError, 1)
      else if \<not> is_cont (byte c2) then (RuneError, 1)
      else (byte c mod 16 * 4096 + byte c1 mod 64 * 64 + byte c2 mod 64, 3))"
  by (simp add: DecodeRuneInString_def)

lemma Decode4:
  "seq_len (byte c) = 4 \<Longrightarrow>
   DecodeRuneInString (c # c1 # c2 # c3 # t) =
     (if byte c1 < accept_lo (byte c) \<or> accept_hi (byte c) < byte c1 then (RuneError, 1)
      else if \<not> is_cont (byte c2) then (RuneError, 1)
      else if \<not> is_cont (byte c3) then (RuneError, 1)
      else (byte c mod 8 * 262144 + byte c1 mod 64 * 4096 + byte c2 mod 64 * 64 + byte c3 mod 64, 4))"
  by (simp add: DecodeRuneInString_def)

lemma mod_range: "k * m \<le> x \<Longrightarrow> x < k * m + m \<Longrightarrow> x mod m = x - k * m" for x :: nat
proof -
  assume a: "k * m \<le> x" "x < k * m + m"
  then have "x mod m = ((x - k * m) + k * m) mod m" by simp
  also have "\<dots> = (x - k * m) mod m" by (simp only: mod_mult_self1)
  also from a have "\<dots> = x - k * m" by simp
  finally show ?thesis .
qed

lemma lead3: "224 \<le> x \<Longrightarrow> x < 240 \<Longrightarrow> x = 224 + x mod 16" for x :: nat
  using mod_range [of 14 16 x] by simp

lemma lead4: "240 \<le> x \<Longrightarrow> x < 245 \<Longrightarrow> x = 240 + x mod 8" for x :: nat
  using mod_range [of 30 8 x] by simp

lemma cont6: "128 \<le> x \<Longrightarrow> x \<le> 191 \<Longrightarrow> x = 128 + x mod 64" for x :: nat
  using mod_range [of 2 64 x] by simp

lemma seq_len_3: "seq_len b = 3 \<Longrightarrow> 224 \<le> b \<and> b < 240"
  by (simp add: seq_len_def split: if_splits)

lemma seq_len_4: "seq_len b = 4 \<Longrightarrow> 240 \<le> b \<and> b < 245"
  by (simp add: seq_len_def split: if_splits)

lemma seq_len_2: "seq_len b = 2 \<Longrightarrow> 194 \<le> b \<and> b < 224"
  by (simp add: seq_len_def split: if_splits)

lemma accept_range: "accept_lo b \<le> x \<Longrightarrow> x \<le> accept_hi b \<Longrightarrow> 128 \<le> x \<and> x \<le> 191"
  by (simp add: accept_lo_def accept_hi_def split: if_splits)

lemma sep_bytes:
  assumes d: "DecodeRuneInString (c # cs) = (r, n)" and r: "r = 0x2028 \<or> r = 0x2029"
    and hi: "0x80 \<le> byte c"
  shows "take n (c # cs) = EncodeRune r"
proof -
  from r have ne: "r \<noteq> RuneError" by (auto simp: RuneError_def)
  from seq_len_cases [of "byte c"] show ?thesis
  proof (elim disjE)
    assume "seq_len (byte c) = 0"
    with d ne show ?thesis by (simp add: Decode_invalid)
  next
    assume "seq_len (byte c) = 1"
    with hi show ?thesis by (simp add: seq_len_def split: if_splits)
  next
    assume s2: "seq_len (byte c) = 2"
    show ?thesis
    proof (cases cs)
      case Nil
      with d ne s2 show ?thesis by (simp add: Decode_short)
    next
      case (Cons c1 t)
      have "byte c mod 32 < 32" "byte c1 mod 64 < 64" by simp_all
      then have "byte c mod 32 * 64 + byte c1 mod 64 < 2048" by linarith
      with d r ne s2 Cons show ?thesis by (auto simp: Decode2 split: if_splits)
    qed
  next
    assume s3: "seq_len (byte c) = 3"
    show ?thesis
    proof (cases cs)
      case Nil
      with d ne s3 show ?thesis by (simp add: Decode_short)
    next
      case c1: (Cons c1 t1)
      show ?thesis
      proof (cases t1)
        case Nil
        with c1 d ne s3 show ?thesis by (simp add: Decode_short)
      next
        case c2: (Cons c2 t2)
        from d ne s3 c1 c2 have
          ok: "accept_lo (byte c) \<le> byte c1" "byte c1 \<le> accept_hi (byte c)" "is_cont (byte c2)"
          and rn: "r = byte c mod 16 * 4096 + byte c1 mod 64 * 64 + byte c2 mod 64" "n = 3"
          by (auto simp: Decode3 split: if_splits)
        define a b e where "a = byte c mod 16" and "b = byte c1 mod 64" and "e = byte c2 mod 64"
        from seq_len_3 [OF s3] have ca: "byte c = 224 + a" unfolding a_def by (simp add: lead3)
        from accept_range [OF ok(1,2)] have cb: "byte c1 = 128 + b"
          unfolding b_def by (simp add: cont6)
        from ok(3) have ce: "byte c2 = 128 + e" unfolding e_def is_cont_def by (simp add: cont6)
        have bnd: "a < 16" "b < 64" "e < 64" by (simp_all add: a_def b_def e_def)
        from rn have req: "r = a * 4096 + b * 64 + e" by (simp add: a_def b_def e_def)
        from r show ?thesis
        proof
          assume "r = 0x2028"
          with req bnd have "a = 2" by linarith
          with \<open>r = 0x2028\<close> req bnd have "b = 0" by linarith
          with \<open>r = 0x2028\<close> \<open>a = 2\<close> req have "a = 2 \<and> b = 0 \<and> e = 40" by simp
          with ca cb ce have "c = char_of (226::nat)" "c1 = char_of (128::nat)" "c2 = char_of (168::nat)"
            by (auto intro: byte_eqD)
          with \<open>r = 0x2028\<close> rn c1 c2 show ?thesis by (simp add: EncodeRune_def)
        next
          assume "r = 0x2029"
          with req bnd have "a = 2" by linarith
          with \<open>r = 0x2029\<close> req bnd have "b = 0" by linarith
          with \<open>r = 0x2029\<close> \<open>a = 2\<close> req have "a = 2 \<and> b = 0 \<and> e = 41" by simp
          with ca cb ce have "c = char_of (226::nat)" "c1 = char_of (128::nat)" "c2 = char_of (169::nat)"
            by (auto intro: byte_eqD)
          with \<open>r = 0x2029\<close> rn c1 c2 show ?thesis by (simp add: EncodeRune_def)
        qed
      qed
    qed
  next
    assume s4: "seq_len (byte c) = 4"
    have big: "r = RuneError \<or> 65536 \<le> r"
    proof (cases "length cs < 3")
      case True
      with d s4 show ?thesis by (simp add: Decode_short)
    next
      case False
      then obtain c1 c2 c3 t where cs: "cs = c1 # c2 # c3 # t"
        by (cases cs; cases "tl cs"; cases "tl (tl cs)") auto
      show ?thesis
      proof (cases "r = RuneError")
        case True
        then show ?thesis ..
      next
        case False
        with d s4 cs have
          ok: "accept_lo (byte c) \<le> byte c1" "byte c1 \<le> accept_hi (byte c)"
          and rn: "r = byte c mod 8 * 262144 + byte c1 mod 64 * 4096 + byte c2 mod 64 * 64 +
                     byte c3 mod 64"
          by (auto simp: Decode4 split: if_splits)
        define a b where "a = byte c mod 8" and "b = byte c1 mod 64"
        from seq_len_4 [OF s4] have ca: "byte c = 240 + a" unfolding a_def by (simp add: lead4)
        from accept_range [OF ok] have cb: "byte c1 = 128 + b" unfolding b_def by (simp add: cont6)
        from ok(1) ca cb have "a \<noteq> 0 \<or> 16 \<le> b" by (simp add: accept_lo_def split: if_splits)
        moreover from rn have "a * 262144 + b * 4096 \<le> r" by (simp add: a_def b_def)
        ultimately have "65536 \<le> r" by arith
        then show ?thesis ..
      qed
    qed
    with r show ?thesis by (auto simp: RuneError_def)
  qed
qed

lemma char_of_lits:
  "char_of (239::nat) = CHR 0xEF" "char_of (191::nat) = CHR 0xBF" "char_of (189::nat) = CHR 0xBD"
  using byte_eqD [of "CHR 0xEF" 239] byte_eqD [of "CHR 0xBF" 191] byte_eqD [of "CHR 0xBD" 189]
  by (simp_all add: byte_def)

lemma hex_val_lits [simp]:
  "hex_val (CHR ''0'') = Some 0" "hex_val (CHR ''2'') = Some 2"
  "hex_val (CHR ''f'') = Some 15" "hex_val (CHR ''d'') = Some 13"
  by (simp_all add: hex_val_def byte_def)

lemma map_option_pair_comp:
  "map_option (\<lambda>(s, r). (f s, r)) (map_option (\<lambda>(s, r). (g s, r)) x) =
   map_option (\<lambda>(s, r). (f (g s), r)) x"
  by (cases x) auto

lemma decode_chars_high:
  "\<forall>x \<in> set xs. 0x80 \<le> byte x \<Longrightarrow>
   decode_chars (xs @ ys) = map_option (\<lambda>(s, r). (xs @ s, r)) (decode_chars ys)"
proof (induction xs)
  case Nil
  show ?case by (cases "decode_chars ys") auto
next
  case (Cons x xs)
  from Cons.prems have hi: "0x80 \<le> byte x" by simp
  then have "x \<noteq> CHR 0x22" "x \<noteq> CHR 0x5C" "\<not> byte x < 0x20" by (auto simp: byte_def)
  with Cons show ?case by (simp add: map_option_pair_comp)
qed

lemma decode_escape:
  assumes "byte c < 0x80" "\<not> htmlSafe c"
  shows "decode_chars (escape c @ ys) = map_option (\<lambda>(s, r). (c # s, r)) (decode_chars ys)"
proof -
  have h: "hex_val (hex (byte c div 16)) = Some (byte c div 16)"
    "hex_val (hex (byte c mod 16)) = Some (byte c mod 16)"
    using assms(1) by (simp_all add: hex_val_hex)
  have e: "EncodeRune (byte c) = [c]" using assms(1) by (simp add: EncodeRune_def)
  have s: "byte c < 0xD800" using assms(1) by simp
  show ?thesis
    using h e s by (simp add: escape_def hex4_def unescape_def)
qed

lemma decode_fffd:
  "decode_chars (CHR 0x5C # CHR ''u'' # CHR ''f'' # CHR ''f'' # CHR ''f'' # CHR ''d'' # ys) =
   map_option (\<lambda>(s, r). (CHR 0xEF # CHR 0xBF # CHR 0xBD # s, r)) (decode_chars ys)"
  by (simp add: hex4_def EncodeRune_def char_of_lits)

lemma decode_sep:
  assumes "r = 0x2028 \<or> r = 0x2029"
  shows "decode_chars (CHR 0x5C # CHR ''u'' # CHR ''2'' # CHR ''0'' # CHR ''2'' # hex (r mod 16) # ys) =
         map_option (\<lambda>(s, rest). (EncodeRune r @ s, rest)) (decode_chars ys)"
  using assms by (auto simp: hex4_def hex_def hex_val_def byte_def)

lemma decode_appendString_body:
  "decode_chars (appendString_body s @ CHR 0x22 # rest) = Some (ToValidUTF8 s, rest)"
proof (induction s rule: appendString_body.induct)
  case 1
  show ?case by simp
next
  case (2 c cs)
  show ?case
  proof (cases "byte c < 0x80")
    case True
    note lo = True
    show ?thesis
    proof (cases "htmlSafe c")
      case True
      then have "c \<noteq> CHR 0x22" "c \<noteq> CHR 0x5C" "\<not> byte c < 0x20" by (auto simp: htmlSafe_def)
      with lo True "2.IH"(1) show ?thesis by simp
    next
      case False
      with lo "2.IH"(1) show ?thesis by (simp add: decode_escape)
    qed
  next
    case False
    obtain r n where d: "DecodeRuneInString (take 4 (c # cs)) = (r, n)"
      by (cases "DecodeRuneInString (take 4 (c # cs))") auto
    show ?thesis
    proof (cases "r = RuneError \<and> n = 1")
      case True
      from "2.IH"(2) [OF False d [symmetric] True] False d True show ?thesis
        by (simp add: decode_fffd del: decode_chars.simps)
    next
      case inv: False
      from False have c80: "0x80 \<le> byte c" by simp
      from d have d': "DecodeRuneInString (c # take 3 cs) = (r, n)" by simp
      from DecodeRune_multibyte [OF c80 d' inv]
      have n: "2 \<le> n" "n \<le> 4" and hi: "\<forall>x \<in> set (take n (c # take 3 cs)). 0x80 \<le> byte x"
        by auto
      from n have tk: "take n (c # take 3 cs) = take n (c # cs)"
        by (cases n) (simp_all add: min_def)
      show ?thesis
      proof (cases "r = 0x2028 \<or> r = 0x2029")
        case True
        from sep_bytes [OF d' True c80] tk have e: "EncodeRune r = take n (c # cs)" by simp
        have "appendString_body (c # cs) =
            [CHR 0x5C, CHR ''u'', CHR ''2'', CHR ''0'', CHR ''2'', hex (r mod 16)] @
            appendString_body (drop n (c # cs))"
          using False d inv True by simp
        moreover have "ToValidUTF8 (c # cs) = take n (c # cs) @ ToValidUTF8 (drop n (c # cs))"
          using False d inv by simp
        ultimately show ?thesis
          using "2.IH"(3) [OF False d [symmetric] inv True] e
          by (simp add: decode_sep [OF True] del: decode_chars.simps appendString_body.simps
                ToValidUTF8.simps)
      next
        case nosep: False
        have "appendString_body (c # cs) = take n (c # cs) @ appendString_body (drop n (c # cs))"
          using False d inv nosep by simp
        moreover have "ToValidUTF8 (c # cs) = take n (c # cs) @ ToValidUTF8 (drop n (c # cs))"
          using False d inv by simp
        ultimately show ?thesis
          using "2.IH"(4) [OF False d [symmetric] inv nosep] hi tk
          by (simp add: decode_chars_high del: decode_chars.simps appendString_body.simps
                ToValidUTF8.simps)
      qed
    qed
  qed
qed

lemma decode_string_appendString:
  "decode_string (appendString s @ rest) = Some (ToValidUTF8 s, rest)"
  by (simp add: decode_string_def appendString_def decode_appendString_body
      del: decode_chars.simps)

section \<open>Decoding an encoded record\<close>

lemma digit_is_digit:
  assumes "k < 10"
  shows "is_digit (digit k) \<and> digit_val (digit k) = k"
proof -
  from assms have "k \<in> {9, 8, 7, 6, 5, 4, 3, 2, 1, 0}"
    by (simp; arith)
  then show ?thesis
    by (elim insertE emptyE) (simp_all add: digit_def is_digit_def digit_val_def byte_def)
qed

lemma digit_zero: "n < 10 \<Longrightarrow> digit n = CHR ''0'' \<Longrightarrow> n = 0"
  using digit_is_digit [of n] by (auto simp: digit_val_def byte_def)

lemma dec_nat_digits: "list_all is_digit (dec_nat n)"
proof (induction n rule: dec_nat.induct)
  case (1 n)
  show ?case
  proof (cases "n < 10")
    case True
    then show ?thesis by (simp add: dec_nat_lt10 digit_is_digit)
  next
    case False
    with "1.IH" show ?thesis by (simp add: dec_nat_ge10 digit_is_digit)
  qed
qed

lemma dec_nat_nonempty: "dec_nat n \<noteq> []"
  by (cases "n < 10") (simp_all add: dec_nat_lt10 dec_nat_ge10)

lemma num_val_snoc: "num_val (ds @ [d]) = 10 * num_val ds + digit_val d"
  by (simp add: num_val_def)

lemma num_val_dec_nat: "num_val (dec_nat n) = n"
proof (induction n rule: dec_nat.induct)
  case (1 n)
  show ?case
  proof (cases "n < 10")
    case True
    then show ?thesis by (simp add: dec_nat_lt10 num_val_def digit_is_digit)
  next
    case False
    with "1.IH" show ?thesis by (simp add: dec_nat_ge10 num_val_snoc digit_is_digit)
  qed
qed

lemma dec_nat_no_leading_zero: "1 < length (dec_nat n) \<Longrightarrow> hd (dec_nat n) \<noteq> CHR ''0''"
proof (induction n rule: dec_nat.induct)
  case (1 n)
  show ?case
  proof (cases "n < 10")
    case True
    with "1.prems" show ?thesis by (simp add: dec_nat_lt10)
  next
    case False
    note ge = False
    show ?thesis
    proof (cases "n div 10 < 10")
      case True
      from ge have "n div 10 \<noteq> 0" by simp
      with True digit_zero [of "n div 10"] have "digit (n div 10) \<noteq> CHR ''0''" by auto
      with ge True show ?thesis by (simp add: dec_nat_ge10 dec_nat_lt10)
    next
      case False
      then have "1 < length (dec_nat (n div 10))" by (simp add: dec_nat_ge10 dec_nat_nonempty)
      with "1.IH" [OF ge] ge show ?thesis
        by (simp add: dec_nat_ge10 dec_nat_nonempty)
    qed
  qed
qed

lemma decode_int_Itoa:
  assumes "\<not> is_digit c"
  shows "decode_int (Itoa i @ c # rest) = Some (i, c # rest)"
proof -
  have tw: "takeWhile is_digit (dec_nat n @ c # rest) = dec_nat n"
    and dw: "dropWhile is_digit (dec_nat n @ c # rest) = c # rest" for n
    using assms dec_nat_digits [of n]
    by (simp_all add: list_all_iff)
  have first: "take 1 (dec_nat n @ c # rest) \<noteq> ''-''" for n
  proof -
    from dec_nat_nonempty [of n] obtain d ds where e: "dec_nat n = d # ds" by (cases "dec_nat n") auto
    with dec_nat_digits [of n] have "is_digit d" by simp
    then have "d \<noteq> CHR ''-''" by (auto simp: is_digit_def byte_def)
    with e show ?thesis by simp
  qed
  have lz: "\<not> (1 < length (dec_nat n) \<and> hd (dec_nat n) = CHR ''0'')" for n
    using dec_nat_no_leading_zero [of n] by blast
  show ?thesis
  proof (cases "i < 0")
    case True
    then show ?thesis
      using tw [of "nat (- i)"] dw [of "nat (- i)"] lz [of "nat (- i)"] dec_nat_nonempty [of "nat (- i)"]
      by (simp add: decode_int_def Itoa_def Let_def num_val_dec_nat)
  next
    case False
    then show ?thesis
      using tw [of "nat i"] dw [of "nat i"] lz [of "nat i"] dec_nat_nonempty [of "nat i"] first [of "nat i"]
      by (simp add: decode_int_def Itoa_def Let_def num_val_dec_nat)
  qed
qed

lemma decode_chars_plain:
  "list_all plain k \<Longrightarrow>
   decode_chars (k @ ys) = map_option (\<lambda>(s, r). (k @ s, r)) (decode_chars ys)"
proof (induction k)
  case Nil
  show ?case by (cases "decode_chars ys") auto
next
  case (Cons x xs)
  then have "x \<noteq> CHR 0x22" "x \<noteq> CHR 0x5C" "\<not> byte x < 0x20" by (auto simp: plain_def)
  with Cons show ?case by (simp add: map_option_pair_comp)
qed

lemma decode_string_key:
  "list_all plain k \<Longrightarrow> decode_string (member k v @ rest) = Some (k, CHR '':'' # v @ rest)"
  by (simp add: decode_string_def member_def decode_chars_plain del: decode_chars.simps)
     (simp)

lemma decode_value_string:
  "decode_value (appendString v @ rest) = Some (JString (ToValidUTF8 v), rest)"
proof -
  have "take 1 (appendString v @ rest) = [CHR 0x22]" by (simp add: appendString_def)
  then show ?thesis by (simp add: decode_value_def decode_string_appendString)
qed

lemma decode_value_int:
  assumes "\<not> is_digit c"
  shows "decode_value (Itoa i @ c # rest) = Some (JInt i, c # rest)"
proof -
  obtain d ds where e: "Itoa i = d # ds" and d: "d = CHR ''-'' \<or> is_digit d"
  proof (cases "i < 0")
    case True
    then have "Itoa i = CHR ''-'' # dec_nat (nat (- i))" by (simp add: Itoa_def)
    with that show ?thesis by blast
  next
    case False
    from dec_nat_nonempty [of "nat i"] obtain d ds where e: "dec_nat (nat i) = d # ds"
      by (cases "dec_nat (nat i)") auto
    with dec_nat_digits [of "nat i"] have "is_digit d" by simp
    with False e that show ?thesis by (simp add: Itoa_def)
  qed
  from d have "d \<noteq> CHR 0x22" "d \<noteq> CHR ''t''" "d \<noteq> CHR ''f''"
    by (auto simp: is_digit_def byte_def)
  then have "take 1 (Itoa i @ c # rest) \<noteq> [CHR 0x22]" "take 4 (Itoa i @ c # rest) \<noteq> ''true''"
    "take 5 (Itoa i @ c # rest) \<noteq> ''false''"
    unfolding e by (auto simp: take_Cons')
  then show ?thesis
    by (simp add: decode_value_def decode_int_Itoa [OF assms])
qed

lemma decode_value_bool:
  "decode_value ((if b then ''true'' else ''false'') @ rest) = Some (JBool b, rest)"
  by (simp add: decode_value_def)

lemma decode_members_comma:
  assumes "list_all plain k" "decode_value (v @ CHR '','' # others) = Some (x, CHR '','' # others)"
  shows "decode_members (member k v @ CHR '','' # others) =
         map_option (\<lambda>(ms, r). ((k, x) # ms, r)) (decode_members others)"
  using assms
  by (subst decode_members.simps) (simp add: decode_string_key)

lemma decode_members_end:
  assumes "list_all plain k" "decode_value (v @ CHR ''}'' # rest) = Some (x, CHR ''}'' # rest)"
  shows "decode_members (member k v @ CHR ''}'' # rest) = Some ([(k, x)], rest)"
  using assms
  by (subst decode_members.simps) (simp add: decode_string_key)

lemma members_string_comma:
  "list_all plain k \<Longrightarrow>
   decode_members (member k (appendString v) @ CHR '','' # others) =
     map_option (\<lambda>(ms, r). ((k, JString (ToValidUTF8 v)) # ms, r)) (decode_members others)"
  by (rule decode_members_comma) (simp_all add: decode_value_string)

lemma members_string_end:
  "list_all plain k \<Longrightarrow>
   decode_members (member k (appendString v) @ CHR ''}'' # rest) =
     Some ([(k, JString (ToValidUTF8 v))], rest)"
  by (rule decode_members_end) (simp_all add: decode_value_string)

lemma members_int_comma:
  "list_all plain k \<Longrightarrow>
   decode_members (member k (Itoa i) @ CHR '','' # others) =
     map_option (\<lambda>(ms, r). ((k, JInt i) # ms, r)) (decode_members others)"
  by (rule decode_members_comma) (simp_all add: decode_value_int is_digit_def byte_def)

lemma members_bool_comma:
  "list_all plain k \<Longrightarrow>
   decode_members (member k (if b then ''true'' else ''false'') @ CHR '','' # others) =
     map_option (\<lambda>(ms, r). ((k, JBool b) # ms, r)) (decode_members others)"
  by (rule decode_members_comma) (simp_all add: decode_value_bool del: append_Cons)

lemma is_digit_punct [simp]: "\<not> is_digit (CHR '','')" "\<not> is_digit (CHR ''}'')"
  by (simp_all add: is_digit_def byte_def)

lemma encode_members:
  "encode sl =
     CHR ''{'' # member ''timestamp'' (appendString (Timestamp sl)) @ CHR '','' #
     member ''hostname'' (appendString (SyslogLine.Hostname sl)) @ CHR '','' #
     member ''program'' (appendString (Program sl)) @ CHR '','' #
     member ''pid'' (Itoa (SyslogLine.Pid sl)) @ CHR '','' #
     member ''message'' (appendString (Message sl)) @ ''}''"
  by (simp add: encode_def member_def)

lemma encodeB_members:
  "encodeB sl =
     CHR ''{'' # member ''beat'' (if Beat sl then ''true'' else ''false'') @ CHR '','' #
     member ''timestamp'' (appendString (TimestampB sl)) @ CHR '','' #
     member ''hostname'' (appendString (HostnameB sl)) @ CHR '','' #
     member ''program'' (appendString (ProgramB sl)) @ CHR '','' #
     member ''pid'' (appendString (PidB sl)) @ CHR '','' #
     member ''message'' (appendString (MessageB sl)) @ ''}''"
  by (simp add: encodeB_def member_def)

lemma plain_keys [simp]:
  "list_all plain ''timestamp''" "list_all plain ''hostname''" "list_all plain ''program''"
  "list_all plain ''pid''" "list_all plain ''message''" "list_all plain ''beat''"
  by (simp_all add: plain_def byte_def)

lemma member_first [simp]: "take 1 (member k v @ rest) = [CHR 0x22]"
  by (simp add: member_def)

lemma decode_object_encode:
  "decode_object (encode sl) =
     Some [(''timestamp'', JString (ToValidUTF8 (Timestamp sl))),
           (''hostname'', JString (ToValidUTF8 (SyslogLine.Hostname sl))),
           (''program'', JString (ToValidUTF8 (Program sl))),
           (''pid'', JInt (SyslogLine.Pid sl)),
           (''message'', JString (ToValidUTF8 (Message sl)))]"
proof -
  have ne: "member k v @ rest \<noteq> ''}''" for k v rest by (simp add: member_def)
  show ?thesis
    unfolding encode_members decode_object_def
    by (simp add: members_string_comma members_string_end members_int_comma ne plain_def
          byte_def)
qed

section \<open>The scenario: a line, six seconds of silence, a line\<close>

subsection \<open>The steps of the scheduler\<close>

lemma schedule_nil: "schedule_from tk picks clock pending fired [] = []"
  by (subst schedule_from.simps) simp

lemma schedule_line:
  "0 < period tk \<Longrightarrow> t \<le> clock \<Longrightarrow> \<not> pending \<Longrightarrow> clock div period tk \<le> fired \<Longrightarrow>
   schedule_from tk picks clock pending fired ((t, ev, busy) # rest) =
     ev # schedule_from tk picks (clock + busy) False (clock div period tk) rest"
  by (subst schedule_from.simps) simp

lemma schedule_tick:
  "0 < period tk \<Longrightarrow> clock < t \<Longrightarrow> pending \<or> fired < clock div period tk \<Longrightarrow>
   schedule_from tk picks clock pending fired ((t, ev, busy) # rest) =
     TickEv (tick_ans tk) #
     schedule_from tk picks (clock + tick_busy tk) False (clock div period tk) ((t, ev, busy) # rest)"
  by (subst schedule_from.simps) auto

lemma schedule_wait:
  "0 < period tk \<Longrightarrow> clock < t \<Longrightarrow> \<not> pending \<Longrightarrow> clock div period tk \<le> fired \<Longrightarrow>
   schedule_from tk picks clock pending fired ((t, ev, busy) # rest) =
     schedule_from tk picks (min t ((clock div period tk + 1) * period tk)) False
       (clock div period tk) ((t, ev, busy) # rest)"
  by (subst schedule_from.simps) (simp add: Let_def)

lemma schedule_tie_tick:
  "0 < period tk \<Longrightarrow> t \<le> clock \<Longrightarrow> pending \<or> fired < clock div period tk \<Longrightarrow>
   schedule_from tk (True # ps) clock pending fired ((t, ev, busy) # rest) =
     TickEv (tick_ans tk) #
     schedule_from tk ps (clock + tick_busy tk) False (clock div period tk) ((t, ev, busy) # rest)"
  by (subst schedule_from.simps) auto

lemma schedule_tie_line:
  "0 < period tk \<Longrightarrow> t \<le> clock \<Longrightarrow> pending \<or> fired < clock div period tk \<Longrightarrow>
   picks = [] \<or> \<not> hd picks \<Longrightarrow>
   schedule_from tk picks clock pending fired ((t, ev, busy) # rest) =
     ev # schedule_from tk (tl picks) (clock + busy) True (clock div period tk) rest"
  by (subst schedule_from.simps) (cases picks; auto simp: Let_def)

subsection \<open>A first line in the first four seconds\<close>

lemma first_line:
  assumes "period tk = 5000" "at < 4000"
  shows "schedule_from tk picks 0 False 0 ((at, ev, busy) # rest) =
         ev # schedule_from tk picks (at + busy) False 0 rest"
proof (cases "at = 0")
  case True
  with assms show ?thesis by (simp add: schedule_line)
next
  case False
  with assms have "schedule_from tk picks 0 False 0 ((at, ev, busy) # rest) =
      schedule_from tk picks at False 0 ((at, ev, busy) # rest)"
    by (simp add: schedule_wait)
  also from assms have "\<dots> = ev # schedule_from tk picks (at + busy) False 0 rest"
    by (simp add: schedule_line)
  finally show ?thesis .
qed

lemma the_tick:
  assumes "period tk = 5000" "c < at + 6000" "c < 10000" "at < 4000"
  shows "schedule_from tk picks c False 0 ((at + 6000, ev, busy) # rest) =
         TickEv (tick_ans tk) #
         schedule_from tk picks (max 5000 c + tick_busy tk) False 1 ((at + 6000, ev, busy) # rest)"
proof (cases "c < 5000")
  case True
  then have d: "c div 5000 = 0" by simp
  with assms True have "schedule_from tk picks c False 0 ((at + 6000, ev, busy) # rest) =
      schedule_from tk picks 5000 False 0 ((at + 6000, ev, busy) # rest)"
    by (simp add: schedule_wait)
  also from assms have "\<dots> = TickEv (tick_ans tk) #
         schedule_from tk picks (5000 + tick_busy tk) False 1 ((at + 6000, ev, busy) # rest)"
    by (simp add: schedule_tick)
  finally show ?thesis using True by (simp add: max_def)
next
  case False
  with assms have d: "c div 5000 = 1" by simp
  with assms False show ?thesis by (simp add: schedule_tick max_def)
qed

lemma second_line:
  assumes "period tk = 5000" "5000 \<le> c" "c < 10000" "at < 4000"
  shows "schedule_from tk picks c False 1 [(at + 6000, ev, busy)] = [ev]"
proof -
  from assms have d: "c div 5000 = 1" by simp
  from assms have d': "(at + 6000) div 5000 = 1" by simp
  show ?thesis
  proof (cases "c < at + 6000")
    case True
    with assms d have "schedule_from tk picks c False 1 [(at + 6000, ev, busy)] =
        schedule_from tk picks (at + 6000) False 1 [(at + 6000, ev, busy)]"
      by (simp add: schedule_wait)
    also from assms d' have "\<dots> = [ev]" by (simp add: schedule_line schedule_nil)
    finally show ?thesis .
  next
    case False
    with assms d show ?thesis by (simp add: schedule_line schedule_nil)
  qed
qed

lemma hello_tick_world:
  assumes "period tk = 5000" "at < 4000" "d1 < 6000" "at + d1 + tick_busy tk < 10000"
    "tick_busy tk < 5000"
  shows "schedule tk picks [(at, ev1, d1), (at + 6000, ev2, d2)] = [ev1, TickEv (tick_ans tk), ev2]"
proof -
  from assms have c: "5000 \<le> max 5000 (at + d1) + tick_busy tk"
    "max 5000 (at + d1) + tick_busy tk < 10000" by (simp_all add: max_def)
  from assms have b: "at + d1 < at + 6000" "at + d1 < 10000" by simp_all
  have "schedule tk picks [(at, ev1, d1), (at + 6000, ev2, d2)] =
      ev1 # schedule_from tk picks (at + d1) False 0 [(at + 6000, ev2, d2)]"
    unfolding schedule_def by (rule first_line [OF assms(1,2)])
  also have "schedule_from tk picks (at + d1) False 0 [(at + 6000, ev2, d2)] =
      TickEv (tick_ans tk) #
      schedule_from tk picks (max 5000 (at + d1) + tick_busy tk) False 1 [(at + 6000, ev2, d2)]"
    by (rule the_tick [OF assms(1) b assms(2)])
  also have "schedule_from tk picks (max 5000 (at + d1) + tick_busy tk) False 1
       [(at + 6000, ev2, d2)] = [ev2]"
    by (rule second_line [OF assms(1) c assms(2)])
  finally show ?thesis .
qed

text \<open>
  Ticks that fall due while the loop is busy are not queued: a first write that takes
  twelve seconds is followed by one heartbeat, not two.
\<close>

lemma ticks_are_dropped_while_busy:
  "schedule \<lparr>period = ticker_period, tick_ans = ans, tick_busy = 0\<rparr> []
     [(0, ev1, 12000), (13000, ev2, 0)] = [ev1, TickEv ans, ev2]"
  by (simp add: schedule_def ticker_period_def schedule_wait schedule_line schedule_tick
      schedule_nil)

text \<open>
  Claim C6, amended. app.go tails the file from its end and creates the ticker when the
  stream is open, so the instant at which \<open>hello\<close> is observed, counted from the creation of
  the ticker, is not fixed by the scenario. When \<open>hello\<close> is observed less than four seconds
  after the ticker was created, \<open>world\<close> six seconds after \<open>hello\<close>, every write succeeds,
  the handling of \<open>hello\<close> ends before \<open>world\<close> is offered and the handling of the heartbeat
  ends before a second tick is due, then the stream receives exactly three writes, in this
  order: the record whose message member is \<open>hello\<close>, the heartbeat token, the record whose
  message member is \<open>world\<close>. The loop is then blocked in \<open>select\<close>.
\<close>

theorem hello_heartbeat_world:
  assumes "at < 4000" and "d1 < 6000" and "at + d1 + dt < 10000" and "dt < 5000"
  shows
    \<open>loop a (schedule
        \<lparr>period = ticker_period, tick_ans = \<lparr>now = tb, write_err = None, read_res = rb\<rparr>,
         tick_busy = dt\<rparr> picks
        [(at, LineEv \<lparr>Text = ''hello'', Err = None\<rparr> \<lparr>now = t1, write_err = None, read_res = r1\<rparr>, d1),
         (at + 6000, LineEv \<lparr>Text = ''world'', Err = None\<rparr> \<lparr>now = t2, write_err = None, read_res = r2\<rparr>, d2)])
     = ([Write (''{"timestamp":'' @ appendString (Format_RFC3339 t1) @
                '',"hostname":'' @ appendString (App.Hostname a) @
                '',"program":"teller","pid":'' @ Itoa (App.Pid a) @
                '',"message":"hello"}'' @ [CHR 0x0A]) None,
         Write ''|beat|'' None,
         Write (''{"timestamp":'' @ appendString (Format_RFC3339 t2) @
                '',"hostname":'' @ appendString (App.Hostname a) @
                '',"program":"teller","pid":'' @ Itoa (App.Pid a) @
                '',"message":"world"}'' @ [CHR 0x0A]) None], Waiting)\<close>
proof -
  let ?tk = "\<lparr>period = ticker_period, tick_ans = \<lparr>now = tb, write_err = None, read_res = rb\<rparr>,
         tick_busy = dt\<rparr>"
  have p: "period ?tk = 5000" by (simp add: ticker_period_def)
  from assms have b: "at + d1 + tick_busy ?tk < 10000" "tick_busy ?tk < 5000" by simp_all
  show ?thesis
    unfolding hello_tick_world [OF p assms(1,2) b]
    by (simp add: handle_line_ok handle_tick_ok teller_bytes beat_token_def appendString_def
        htmlSafe_def byte_def)
qed

theorem hello_heartbeat_world_witness:
  \<open>(0::nat) < 4000 \<and> (0::nat) < 6000 \<and> (0::nat) + 0 + 0 < 10000 \<and> (0::nat) < 5000 \<and>
   loop example_app (schedule
        \<lparr>period = ticker_period, tick_ans = ok_answers example_time, tick_busy = 0\<rparr> []
        [(0, LineEv \<lparr>Text = ''hello'', Err = None\<rparr> (ok_answers example_time), 0),
         (6000, LineEv \<lparr>Text = ''world'', Err = None\<rparr> (ok_answers example_time), 0)])
     = ([Write (''{"timestamp":"2026-11-01T09:05:07-05:00","hostname":"web-1",'' @
                ''"program":"teller","pid":4242,"message":"hello"}'' @ [CHR 0x0A]) None,
         Write ''|beat|'' None,
         Write (''{"timestamp":"2026-11-01T09:05:07-05:00","hostname":"web-1",'' @
                ''"program":"teller","pid":4242,"message":"world"}'' @ [CHR 0x0A]) None], Waiting)\<close>
  using hello_heartbeat_world [where at = 0 and ?d1.0 = 0 and dt = 0 and ?d2.0 = 0 and
      a = example_app and picks = "[]" and tb = example_time and ?t1.0 = example_time and
      ?t2.0 = example_time and rb = "ReadOk 2" and ?r1.0 = "ReadOk 2" and ?r2.0 = "ReadOk 2"]
  by (simp add: ok_answers_def example_app_def example_time_def json_eval time_eval)

text \<open>
  Claim C6 as stated fails: \<open>hello\<close> observed four and a half seconds after the ticker was
  created, six seconds of silence, then \<open>world\<close>, every write succeeding at once. The ticks
  at five and at ten seconds both fall into the silence, and the stream receives two
  heartbeats between the two records.
\<close>

theorem second_heartbeat_in_the_silence:
  \<open>loop example_app (schedule
        \<lparr>period = ticker_period, tick_ans = ok_answers example_time, tick_busy = 0\<rparr> []
        [(4500, LineEv \<lparr>Text = ''hello'', Err = None\<rparr> (ok_answers example_time), 0),
         (10500, LineEv \<lparr>Text = ''world'', Err = None\<rparr> (ok_answers example_time), 0)])
     = ([Write (''{"timestamp":"2026-11-01T09:05:07-05:00","hostname":"web-1",'' @
                ''"program":"teller","pid":4242,"message":"hello"}'' @ [CHR 0x0A]) None,
         Write ''|beat|'' None,
         Write ''|beat|'' None,
         Write (''{"timestamp":"2026-11-01T09:05:07-05:00","hostname":"web-1",'' @
                ''"program":"teller","pid":4242,"message":"world"}'' @ [CHR 0x0A]) None], Waiting)\<close>
proof -
  let ?tk = "\<lparr>period = ticker_period, tick_ans = ok_answers example_time, tick_busy = 0\<rparr>"
  let ?h = "LineEv \<lparr>Text = ''hello'', Err = None\<rparr> (ok_answers example_time)"
  let ?w = "LineEv \<lparr>Text = ''world'', Err = None\<rparr> (ok_answers example_time)"
  have s: "schedule ?tk [] [(4500, ?h, 0), (10500, ?w, 0)] =
      [?h, TickEv (ok_answers example_time), TickEv (ok_answers example_time), ?w]"
    by (simp add: schedule_def ticker_period_def schedule_wait schedule_line schedule_tick
        schedule_nil)
  show ?thesis
    unfolding s
    by (simp add: handle_line_ok handle_tick_ok ok_answers_def beat_token_def example_app_def
        example_time_def json_eval time_eval log_record_def)
qed

section \<open>The two renderings of a timestamp\<close>

lemma digit_0 [simp]: "digit 0 = CHR ''0''"
  by (simp add: digit_def)

lemma pad2: "n < 100 \<Longrightarrow> appendInt (int n) 2 = [digit (n div 10), digit (n mod 10)]"
  by (cases "n < 10") (simp_all add: appendInt_def dec_nat_lt10 dec_nat_ge10)

lemma pad2_int:
  "0 \<le> x \<Longrightarrow> x < 100 \<Longrightarrow> appendInt x 2 = [digit (nat x div 10), digit (nat x mod 10)]"
  using pad2 [of "nat x"] by simp

lemma replicate_23: "replicate 2 x = [x, x]" "replicate 3 x = [x, x, x]"
  by (simp_all add: numeral_2_eq_2 numeral_3_eq_3)

lemma dec_nat_4:
  "n < 10000 \<Longrightarrow>
   replicate (4 - length (dec_nat n)) (CHR ''0'') @ dec_nat n =
     [digit (n div 1000), digit (n div 100 mod 10), digit (n div 10 mod 10), digit (n mod 10)]"
proof -
  assume n: "n < 10000"
  consider "n < 10" | "10 \<le> n" "n < 100" | "100 \<le> n" "n < 1000" | "1000 \<le> n" by linarith
  then show ?thesis
  proof cases
    case 1
    then show ?thesis by (simp add: dec_nat_lt10 replicate_23)
  next
    case 2
    then have "n div 10 < 10" by simp
    with 2 show ?thesis by (simp add: dec_nat_lt10 dec_nat_ge10 replicate_23)
  next
    case 3
    then have "10 \<le> n div 10" "n div 10 div 10 < 10" "n div 100 = n div 10 div 10" by simp_all
    with 3 show ?thesis
      by (simp add: dec_nat_lt10 dec_nat_ge10 div_mult2_eq)
  next
    case 4
    with n have "10 \<le> n div 10" "10 \<le> n div 10 div 10" "n div 10 div 10 div 10 < 10"
      by simp_all
    moreover have "n div 100 = n div 10 div 10" "n div 1000 = n div 10 div 10 div 10"
      by (simp_all add: div_mult2_eq)
    ultimately show ?thesis using 4
      by (simp add: dec_nat_lt10 dec_nat_ge10)
  qed
qed

lemma pad4:
  "0 \<le> y \<Longrightarrow> y \<le> 9999 \<Longrightarrow>
   appendInt y 4 =
     [digit (nat y div 1000), digit (nat y div 100 mod 10), digit (nat y div 10 mod 10),
      digit (nat y mod 10)]"
  using dec_nat_4 [of "nat y"] by (simp add: appendInt_def)

lemma zone_hhmm_shape:
  assumes "- 86400 < off" "off < 86400"
  shows "\<exists>h m. h < 24 \<and> m < 60 \<and>
           zone_hhmm off sep =
             (if quo off 60 < 0 then ''-'' else ''+'') @
             [digit (h div 10), digit (h mod 10)] @ sep @ [digit (m div 10), digit (m mod 10)]"
proof -
  define z where "z = \<bar>quo off 60\<bar>"
  have z: "0 \<le> z" "z < 1440" using assms unfolding z_def quo_def by (auto simp: abs_if)
  then have h: "0 \<le> quo z 60" "quo z 60 < 24" unfolding quo_def by auto
  have m: "0 \<le> z mod 60" "z mod 60 < 60" by simp_all
  have "zone_hhmm off sep =
      (if quo off 60 < 0 then ''-'' else ''+'') @
      [digit (nat (quo z 60) div 10), digit (nat (quo z 60) mod 10)] @ sep @
      [digit (nat (z mod 60) div 10), digit (nat (z mod 60) mod 10)]"
    using h m by (simp add: zone_hhmm_def Let_def z_def [symmetric] pad2_int)
  moreover have "nat (quo z 60) < 24" "nat (z mod 60) < 60" using h m by simp_all
  ultimately show ?thesis by blast
qed

lemma digit_ascii: "n < 10 \<Longrightarrow> byte (digit n) < 0x80"
  using digit_is_digit [of n] by (simp add: is_digit_def)

lemma num_val_2: "a < 10 \<Longrightarrow> b < 10 \<Longrightarrow> num_val [digit a, digit b] = 10 * a + b"
  by (simp add: num_val_def digit_is_digit)

lemma num_val_4:
  "a < 10 \<Longrightarrow> b < 10 \<Longrightarrow> c < 10 \<Longrightarrow> d < 10 \<Longrightarrow>
   num_val [digit a, digit b, digit c, digit d] = 1000 * a + 100 * b + 10 * c + d"
  by (simp add: num_val_def digit_is_digit)

lemma four_digits:
  "1000 * (y div 1000) + 100 * (y div 100 mod 10) + 10 * (y div 10 mod 10) + y mod 10 = y"
  for y :: nat
proof -
  have a: "y div 100 = y div 10 div 10" "y div 1000 = y div 10 div 10 div 10"
    by (simp_all add: div_mult2_eq)
  have "y = 10 * (y div 10) + y mod 10" by simp
  moreover have "y div 10 = 10 * (y div 10 div 10) + y div 10 mod 10" by simp
  moreover have "y div 10 div 10 = 10 * (y div 10 div 10 div 10) + y div 10 div 10 mod 10" by simp
  ultimately show ?thesis unfolding a by linarith
qed

lemma valid_offset_zone:
  assumes "h < 24" "m < 60"
  shows "valid_offset (sign # [digit (h div 10), digit (h mod 10)] @ '':'' @
                       [digit (m div 10), digit (m mod 10)]) =
         (sign = CHR ''+'' \<or> sign = CHR ''-'')"
proof -
  from assms have d: "h div 10 < 10" "h mod 10 < 10" "m div 10 < 10" "m mod 10 < 10" by simp_all
  with assms show ?thesis
    by (auto simp: valid_offset_def is_num_def field_def num_val_2 digit_is_digit)
qed

lemma date_part_shape:
  assumes "wf_time t"
  shows "date_part t =
      [digit (nat (year t) div 1000), digit (nat (year t) div 100 mod 10),
       digit (nat (year t) div 10 mod 10), digit (nat (year t) mod 10),
       CHR ''-'', digit (month t div 10), digit (month t mod 10),
       CHR ''-'', digit (day t div 10), digit (day t mod 10)]"
proof -
  from assms have "0 \<le> year t" "year t \<le> 9999" "month t \<le> 12"
    "day t \<le> days_in (nat (year t)) (month t)"
    by (simp_all add: wf_time_def)
  moreover from this have "day t < 100" by (simp add: days_in_def split: if_splits)
  ultimately show ?thesis by (simp add: date_part_def pad4 pad2)
qed

lemma clock_part_shape:
  assumes "wf_time t"
  shows "clock_part t =
      [digit (hour t div 10), digit (hour t mod 10), CHR '':'',
       digit (minute t div 10), digit (minute t mod 10), CHR '':'',
       digit (second t div 10), digit (second t mod 10)]"
  using assms by (simp add: wf_time_def clock_part_def pad2)

lemma Format_RFC3339_shape:
  assumes "wf_time t"
  obtains zs where "Format_RFC3339 t = date_part t @ ''T'' @ clock_part t @ zs"
    and "valid_offset zs" and "zs \<noteq> []" and "hd zs \<noteq> CHR ''.''"
    and "list_all (\<lambda>x. byte x < 0x80) zs"
proof (cases "zone_offset t = 0")
  case True
  then have "Format_RFC3339 t = date_part t @ ''T'' @ clock_part t @ ''Z''"
    by (simp add: Format_RFC3339_def)
  moreover have "valid_offset ''Z''" by (simp add: valid_offset_def)
  ultimately show ?thesis using that by (simp add: byte_def)
next
  case False
  from assms have zo: "- 86400 < zone_offset t" "zone_offset t < 86400"
    by (simp_all add: wf_time_def)
  from zone_hhmm_shape [OF zo, of "'':''"] obtain h m where hm: "h < 24" "m < 60"
    and z: "zone_hhmm (zone_offset t) '':'' =
           (if quo (zone_offset t) 60 < 0 then ''-'' else ''+'') @
           [digit (h div 10), digit (h mod 10)] @ '':'' @ [digit (m div 10), digit (m mod 10)]"
    by blast
  from hm have d: "h div 10 < 10" "h mod 10 < 10" "m div 10 < 10" "m mod 10 < 10" by simp_all
  from False have "Format_RFC3339 t =
      date_part t @ ''T'' @ clock_part t @ zone_hhmm (zone_offset t) '':''"
    by (simp add: Format_RFC3339_def)
  moreover have "valid_offset (zone_hhmm (zone_offset t) '':'')"
    using valid_offset_zone [OF hm, of "CHR ''-''"] valid_offset_zone [OF hm, of "CHR ''+''"]
    unfolding z by (simp split: if_splits)
  moreover have "zone_hhmm (zone_offset t) '':'' \<noteq> []"
    "hd (zone_hhmm (zone_offset t) '':'') \<noteq> CHR ''.''"
    unfolding z by simp_all
  moreover have "list_all (\<lambda>x. byte x < 0x80) (zone_hhmm (zone_offset t) '':'')"
    unfolding z using d by (simp add: digit_ascii) (simp add: byte_def)
  ultimately show ?thesis using that by blast
qed

lemma Format_RFC3339_valid:
  assumes "wf_time t"
  shows "valid_rfc3339 (Format_RFC3339 t)"
proof -
  from assms have mo: "1 \<le> month t" "month t \<le> 12"
    and dy: "1 \<le> day t" "day t \<le> days_in (nat (year t)) (month t)"
    and cl: "hour t < 24" "minute t < 60" "second t < 60"
    by (simp_all add: wf_time_def)
  from assms have Y: "nat (year t) < 10000" unfolding wf_time_def by linarith
  from dy have d31: "day t < 100" by (simp add: days_in_def split: if_splits)
  from Y have yd: "nat (year t) div 1000 < 10" "nat (year t) div 100 mod 10 < 10"
    "nat (year t) div 10 mod 10 < 10" "nat (year t) mod 10 < 10"
    by simp_all
  from mo d31 cl have dd: "month t div 10 < 10" "month t mod 10 < 10" "day t div 10 < 10"
    "day t mod 10 < 10" "hour t div 10 < 10" "hour t mod 10 < 10" "minute t div 10 < 10"
    "minute t mod 10 < 10" "second t div 10 < 10" "second t mod 10 < 10"
    by simp_all
  from Format_RFC3339_shape [OF assms] obtain zs where
    f: "Format_RFC3339 t = date_part t @ ''T'' @ clock_part t @ zs"
    and zs: "valid_offset zs" "zs \<noteq> []" "hd zs \<noteq> CHR ''.''"
    by blast
  from zs obtain z0 zr where zc: "zs = z0 # zr" "z0 \<noteq> CHR ''.''" by (cases zs) auto
  have nv: "num_val [digit (nat (year t) div 1000), digit (nat (year t) div 100 mod 10),
      digit (nat (year t) div 10 mod 10), digit (nat (year t) mod 10)] = nat (year t)"
    using yd by (simp add: num_val_4 four_digits)
  from zs(1) zc have vo: "valid_offset (z0 # zr)" by simp
  have dv: "10 * (n div 10) + n mod 10 = n" for n :: nat by simp
  show ?thesis
    unfolding valid_rfc3339_def f date_part_shape [OF assms] clock_part_shape [OF assms] zc(1)
    using yd dd mo dy cl vo zc(2)
    by (simp add: is_num_def field_def digit_is_digit num_val_2 dv nv)
qed

lemma time_String_not_rfc3339:
  assumes "wf_time t"
  shows "\<not> valid_rfc3339 (time_String t)"
  unfolding valid_rfc3339_def time_String_def date_part_shape [OF assms]
  by simp

section \<open>Well-formed UTF-8 is left as it is\<close>

lemma ToValidUTF8_ascii: "list_all (\<lambda>x. byte x < 0x80) s \<Longrightarrow> ToValidUTF8 s = s"
  by (induction s) simp_all

lemma ToValidUTF8_valid: "ValidString s \<Longrightarrow> ToValidUTF8 s = s"
proof (induction s rule: ValidString.induct)
  case 1
  show ?case by simp
next
  case (2 c cs)
  show ?case
  proof (cases "byte c < 0x80")
    case True
    with 2 show ?thesis by simp
  next
    case False
    obtain r n where d: "DecodeRuneInString (take 4 (c # cs)) = (r, n)"
      by (cases "DecodeRuneInString (take 4 (c # cs))") auto
    from "2.prems" False d have v: "\<not> (r = RuneError \<and> n = 1)" "ValidString (drop n (c # cs))"
      by simp_all
    from "2.IH"(2) [OF False d [symmetric] v(2)] False d v(1) show ?thesis
      by (auto simp del: ValidString.simps)
  qed
qed

lemma Format_RFC3339_ascii:
  assumes "wf_time t"
  shows "ToValidUTF8 (Format_RFC3339 t) = Format_RFC3339 t"
proof -
  from assms have mo: "month t \<le> 12"
    and dy: "day t \<le> days_in (nat (year t)) (month t)"
    and cl: "hour t < 24" "minute t < 60" "second t < 60"
    by (simp_all add: wf_time_def)
  from assms have Y: "nat (year t) < 10000" unfolding wf_time_def by linarith
  from dy have d31: "day t < 100" by (simp add: days_in_def split: if_splits)
  from Format_RFC3339_shape [OF assms] obtain zs where
    f: "Format_RFC3339 t = date_part t @ ''T'' @ clock_part t @ zs"
    and zs: "list_all (\<lambda>x. byte x < 0x80) zs"
    by blast
  have "list_all (\<lambda>x. byte x < 0x80) (Format_RFC3339 t)"
    unfolding f date_part_shape [OF assms] clock_part_shape [OF assms]
    using zs Y mo d31 cl by (simp add: digit_ascii) (simp add: byte_def)
  then show ?thesis by (rule ToValidUTF8_ascii)
qed

section \<open>Decoding the records of either program\<close>

lemma decode_SyslogLine_encode:
  "decode_SyslogLine (encode sl) =
     Some \<lparr>Timestamp = ToValidUTF8 (Timestamp sl),
           SyslogLine.Hostname = ToValidUTF8 (SyslogLine.Hostname sl),
           Program = ToValidUTF8 (Program sl),
           SyslogLine.Pid = SyslogLine.Pid sl,
           Message = ToValidUTF8 (Message sl)\<rparr>"
  by (simp add: decode_SyslogLine_def decode_object_encode get_string_def get_int_def)

lemma decode_object_encodeB:
  "decode_object (encodeB sl) =
     Some [(''beat'', JBool (Beat sl)),
           (''timestamp'', JString (ToValidUTF8 (TimestampB sl))),
           (''hostname'', JString (ToValidUTF8 (HostnameB sl))),
           (''program'', JString (ToValidUTF8 (ProgramB sl))),
           (''pid'', JString (ToValidUTF8 (PidB sl))),
           (''message'', JString (ToValidUTF8 (MessageB sl)))]"
proof -
  have ne: "member k v @ rest \<noteq> ''}''" for k v rest by (simp add: member_def)
  show ?thesis
    unfolding encodeB_members decode_object_def
    by (simp add: members_string_comma members_string_end members_bool_comma ne plain_def
          byte_def)
qed

lemma received_encode: "received (encode sl @ [CHR 0x0A]) = Some (ToValidUTF8 (Message sl))"
  by (simp add: received_def decode_SyslogLine_encode)

lemma receivedB_encodeB: "receivedB (encodeB sl) = Some (ToValidUTF8 (MessageB sl))"
  by (simp add: receivedB_def decode_object_encodeB get_string_def)

lemma ToValidUTF8_ascii_prefix:
  "list_all (\<lambda>x. byte x < 0x80) p \<Longrightarrow> ToValidUTF8 (p @ s) = p @ ToValidUTF8 s"
  by (induction p) simp_all

lemma time_String_wire_not_rfc3339:
  assumes "wf_time t"
  shows "\<not> valid_rfc3339 (ToValidUTF8 (time_String t))"
proof -
  from assms have mo: "month t \<le> 12"
    and dy: "day t \<le> days_in (nat (year t)) (month t)"
    by (simp_all add: wf_time_def)
  from assms have Y: "nat (year t) < 10000" unfolding wf_time_def by linarith
  from dy have d31: "day t < 100" by (simp add: days_in_def split: if_splits)
  have "list_all (\<lambda>x. byte x < 0x80) (date_part t @ [CHR 0x20])"
    unfolding date_part_shape [OF assms]
    using Y mo d31 by (simp add: digit_ascii) (simp add: byte_def)
  moreover obtain rest where "time_String t = (date_part t @ [CHR 0x20]) @ rest"
    by (simp add: time_String_def)
  ultimately have "ToValidUTF8 (time_String t) = (date_part t @ [CHR 0x20]) @ ToValidUTF8 rest"
    by (simp only: ToValidUTF8_ascii_prefix)
  then show ?thesis
    unfolding valid_rfc3339_def date_part_shape [OF assms] by simp
qed

section \<open>Write failures\<close>

lemma clean_simps [simp]:
  "clean []"
  "clean (Write p None # xs) = clean xs"
  "clean (Write p (Some e) # xs) = False"
  "clean (Read r # xs) = clean xs"
  "clean (Log l # xs) = clean xs"
  "clean (Print l # xs) = clean xs"
  "clean (StreamClose # xs) = clean xs"
  by (simp_all add: clean_def failed_write_def)

lemma clean_append [simp]: "clean (xs @ ys) = (clean xs \<and> clean ys)"
  by (auto simp: clean_def list_ex_iff)

lemma clean_read_response [simp]: "clean (fst (read_response r))"
  by (cases r) (simp_all add: read_response_def)

text \<open>What one iteration of app.go can do.\<close>

lemma handle_outcomes:
  "handle a ev = (out, c) \<Longrightarrow>
   (clean out \<and> c \<noteq> Hang) \<or>
   (c = Return \<and> (\<exists>p e l. out = [Write p (Some e), Log l]))"
proof (cases ev)
  case (LineEv line ans)
  assume h: "handle a ev = (out, c)"
  show ?thesis
  proof (cases "Err line")
    case None
    with h LineEv show ?thesis
      by (cases "write_err ans") (auto simp: handle_line_ok handle_line_fail)
  next
    case (Some e)
    with h LineEv show ?thesis by (auto simp: handle_err_line)
  qed
next
  case ChanClosed
  assume "handle a ev = (out, c)"
  with ChanClosed show ?thesis by (auto simp: handle_closed)
next
  case (TickEv ans)
  assume "handle a ev = (out, c)"
  with TickEv show ?thesis
    by (cases "write_err ans") (auto simp: handle_tick_ok handle_tick_fail)
qed

lemma loop_failure_is_final:
  "loop a evs = (out, st) \<Longrightarrow>
   (clean out \<and> st \<noteq> Hung) \<or>
   (st = Returned \<and> (\<exists>pre p e l. out = pre @ [Write p (Some e), Log l] \<and> clean pre))"
proof (induction evs arbitrary: out st)
  case Nil
  then show ?case by auto
next
  case (Cons ev evs)
  obtain o1 c where h: "handle a ev = (o1, c)" by (cases "handle a ev") auto
  note hc = handle_outcomes [OF h]
  show ?case
  proof (cases c)
    case Continue
    obtain o2 s2 where l: "loop a evs = (o2, s2)" by (cases "loop a evs") auto
    from Cons.prems h Continue l have eq: "out = o1 @ o2" "st = s2" by auto
    from hc Continue have c1: "clean o1" by auto
    from Cons.IH [OF l] show ?thesis
    proof
      assume "clean o2 \<and> s2 \<noteq> Hung"
      with c1 eq show ?thesis by simp
    next
      assume "s2 = Returned \<and> (\<exists>pre p e l. o2 = pre @ [Write p (Some e), Log l] \<and> clean pre)"
      then obtain pre p e l where "s2 = Returned" "o2 = pre @ [Write p (Some e), Log l]" "clean pre"
        by blast
      with c1 eq have "st = Returned" "out = (o1 @ pre) @ [Write p (Some e), Log l]" "clean (o1 @ pre)"
        by simp_all
      then show ?thesis by blast
    qed
  next
    case Return
    with Cons.prems h have eq: "out = o1" "st = Returned" by auto
    from hc show ?thesis
    proof
      assume "clean o1 \<and> c \<noteq> Hang"
      with eq show ?thesis by simp
    next
      assume "c = Return \<and> (\<exists>p e l. o1 = [Write p (Some e), Log l])"
      then obtain p e l where "o1 = [] @ [Write p (Some e), Log l]" by auto
      with eq have "out = [] @ [Write p (Some e), Log l]" "clean []" by simp_all
      with eq show ?thesis by blast
    qed
  next
    case Hang
    with hc show ?thesis by auto
  qed
qed
lemma Requsts_after_line [simp]: "Requsts (after_line b line) = Requsts b"
  by (simp add: after_line_def)
text \<open>What one iteration of part_000 can do.\<close>

lemma handleB_outcomes:
  assumes "\<not> Memory b" "handleB b ev = (out, b', c)"
  shows "(clean out \<and> Requsts b' = Requsts b) \<or>
         (c = Return \<and>
          (\<exists>p e l. out = [Write p (Some e), Print l] \<and> buffered p (Requsts b) (Requsts b')))"
proof (cases ev)
  case (LineEv line ans)
  show ?thesis
  proof (cases "write_err ans")
    case None
    with assms LineEv show ?thesis by (auto simp: handleB_line_ok)
  next
    case (Some e)
    with assms LineEv have
      "out = [Write (encodeB (log_recordB (now ans) (Text line))) (Some e),
              Print (''Error writing to stream: '' @ e @ [CHR 0x0A])]"
      "Requsts b' = Requsts b @ [log_recordB (now ans) (Text line)]" "c = Return"
      by (auto simp: handleB_line_fail)
    moreover have "buffered (encodeB (log_recordB (now ans) (Text line))) (Requsts b)
        (Requsts b @ [log_recordB (now ans) (Text line)])"
      unfolding buffered_def by blast
    ultimately show ?thesis by simp
  qed
next
  case ChanClosed
  with assms show ?thesis by (auto simp: handleB_closed)
next
  case (TickEv ans)
  show ?thesis
  proof (cases "write_err ans")
    case None
    with assms TickEv show ?thesis by (auto simp: handleB_tick_ok)
  next
    case (Some e)
    with assms TickEv have
      "out = [Write (encodeB (beat_record (now ans))) (Some e),
              Print (''Error writing to stream: '' @ e @ [CHR 0x0A])]"
      "Requsts b' = Requsts b" "c = Return"
      by (auto simp: handleB_tick_fail)
    moreover have "buffered (encodeB (beat_record (now ans))) (Requsts b) (Requsts b)"
      unfolding buffered_def by blast
    ultimately show ?thesis by simp
  qed
qed

lemma loopB_failure_is_final:
  "\<not> Memory b \<Longrightarrow> loopB b evs = (out, b', st) \<Longrightarrow>
   (clean out \<and> Requsts b' = Requsts b) \<or>
   (st = Returned \<and>
    (\<exists>pre p e l. out = pre @ [Write p (Some e), Print l] \<and> clean pre \<and>
       buffered p (Requsts b) (Requsts b')))"
proof (induction evs arbitrary: b out)
  case Nil
  then show ?case by auto
next
  case (Cons ev evs)
  obtain o1 b1 c where h: "handleB b ev = (o1, b1, c)" by (cases "handleB b ev") auto
  note hc = handleB_outcomes [OF Cons.prems(1) h]
  have m1: "\<not> Memory b1" using handleB_Memory [OF Cons.prems(1) h] .
  show ?case
  proof (cases c)
    case Continue
    obtain o2 b2 s2 where l: "loopB b1 evs = (o2, b2, s2)" by (cases "loopB b1 evs") auto
    from Cons.prems(2) h Continue l have eq: "out = o1 @ o2" and l': "loopB b1 evs = (o2, b', st)"
      by auto
    from hc Continue have c1: "clean o1" "Requsts b1 = Requsts b" by auto
    from Cons.IH [OF m1 l'] show ?thesis
    proof
      assume "clean o2 \<and> Requsts b' = Requsts b1"
      with c1 eq show ?thesis by simp
    next
      assume "st = Returned \<and>
        (\<exists>pre p e l. o2 = pre @ [Write p (Some e), Print l] \<and> clean pre \<and>
           buffered p (Requsts b1) (Requsts b'))"
      then obtain pre p e l where r: "st = Returned" "o2 = pre @ [Write p (Some e), Print l]"
        "clean pre" "buffered p (Requsts b1) (Requsts b')"
        by blast
      with c1 eq have "out = (o1 @ pre) @ [Write p (Some e), Print l]" "clean (o1 @ pre)"
        "buffered p (Requsts b) (Requsts b')"
        by simp_all
      with r(1) show ?thesis by blast
    qed
  next
    case Return
    with Cons.prems(2) h have eq: "out = o1" "st = Returned" "b' = b1" by auto
    from hc show ?thesis
    proof
      assume "clean o1 \<and> Requsts b1 = Requsts b"
      with eq show ?thesis by simp
    next
      assume "c = Return \<and>
          (\<exists>p e l. o1 = [Write p (Some e), Print l] \<and> buffered p (Requsts b) (Requsts b1))"
      then obtain p e l where r: "o1 = [] @ [Write p (Some e), Print l]"
        "buffered p (Requsts b) (Requsts b1)"
        by auto
      have "clean []" by simp
      with r eq show ?thesis by blast
    qed
  next
    case Hang
    with Cons.prems(2) h have eq: "out = o1" "b' = b1" by auto
    from hc Hang eq show ?thesis by auto
  qed
qed

lemma loopB_Waiting:
  assumes "\<not> Memory b" "snd (snd (loopB b pre)) = Waiting"
  shows "\<not> Memory (fst (snd (loopB b pre)))" "Requsts (fst (snd (loopB b pre))) = Requsts b"
proof -
  obtain out b' st where l: "loopB b pre = (out, b', st)" by (cases "loopB b pre") auto
  with assms(2) have "st = Waiting" by simp
  with loopB_failure_is_final [OF assms(1) l] have "Requsts b' = Requsts b" by auto
  with l show "Requsts (fst (snd (loopB b pre))) = Requsts b" by simp
  from loopB_Memory [OF assms(1) l] l show "\<not> Memory (fst (snd (loopB b pre)))" by simp
qed

text \<open>
  Claim C2. Let the loop of either program be waiting for an event after the events \<open>pre\<close>,
  and let the environment fail the write of the next event with the error \<open>e\<close>. Whether
  that event is a line or a tick, the trace of the whole run is the trace of \<open>pre\<close> followed
  by the failed write and one diagnostic line, and the loop has returned: no event of
  \<open>post\<close> is handled, so nothing is written again. app.go has no pending buffer and returns
  at once (policy A). part_000 appends the record of the failed line to \<open>Requsts\<close> before it
  returns (policy B); a heartbeat is not a log record and leaves \<open>Requsts\<close> as it was.
  Moreover the trace of every run either holds no failed write or ends with its only
  failed write and the diagnostic line.
\<close>

theorem write_failure_is_final:
  assumes "snd (loop a pre) = Waiting"
    and "\<not> Memory b" and "snd (snd (loopB b preB)) = Waiting"
    and "write_err ans = Some e" and "Err line = None"
    and "loop a evs = (out, st)" and "loopB b evsB = (outB, b', stB)"
  shows
    "loop a (pre @ LineEv line ans # post) =
       (fst (loop a pre) @
        [Write (encode (log_record a (now ans) (Text line)) @ [CHR 0x0A]) (Some e),
         Log (''Error writing to stream (server might be down): '' @ e)], Returned) \<and>
     loop a (pre @ TickEv ans # post) =
       (fst (loop a pre) @ [Write beat_token (Some e), Log (''Heartbeat failed: '' @ e)],
        Returned) \<and>
     loopB b (preB @ LineEv lineB ans # post) =
       (fst (loopB b preB) @
        [Write (encodeB (log_recordB (now ans) (Text lineB))) (Some e),
         Print (''Error writing to stream: '' @ e @ [CHR 0x0A])],
        (after_line (fst (snd (loopB b preB))) lineB)
          \<lparr>Requsts := Requsts b @ [log_recordB (now ans) (Text lineB)]\<rparr>,
        Returned) \<and>
     loopB b (preB @ TickEv ans # post) =
       (fst (loopB b preB) @
        [Write (encodeB (beat_record (now ans))) (Some e),
         Print (''Error writing to stream: '' @ e @ [CHR 0x0A])],
        fst (snd (loopB b preB)), Returned) \<and>
     Requsts (fst (snd (loopB b preB))) = Requsts b \<and>
     (clean out \<and> st \<noteq> Hung \<or>
      st = Returned \<and> (\<exists>pre p e l. out = pre @ [Write p (Some e), Log l] \<and> clean pre)) \<and>
     (clean outB \<and> Requsts b' = Requsts b \<or>
      stB = Returned \<and>
      (\<exists>pre p e l. outB = pre @ [Write p (Some e), Print l] \<and> clean pre \<and>
         buffered p (Requsts b) (Requsts b')))"
proof (intro conjI)
  note w = loopB_Waiting [OF assms(2,3)]
  show "loop a (pre @ LineEv line ans # post) =
       (fst (loop a pre) @
        [Write (encode (log_record a (now ans) (Text line)) @ [CHR 0x0A]) (Some e),
         Log (''Error writing to stream (server might be down): '' @ e)], Returned)"
    unfolding loop_append [OF assms(1)] loop_Return [OF handle_line_fail [OF assms(5,4)]]
    by simp
  show "loop a (pre @ TickEv ans # post) =
       (fst (loop a pre) @ [Write beat_token (Some e), Log (''Heartbeat failed: '' @ e)],
        Returned)"
    unfolding loop_append [OF assms(1)] loop_Return [OF handle_tick_fail [OF assms(4)]]
    by simp
  show "loopB b (preB @ LineEv lineB ans # post) =
       (fst (loopB b preB) @
        [Write (encodeB (log_recordB (now ans) (Text lineB))) (Some e),
         Print (''Error writing to stream: '' @ e @ [CHR 0x0A])],
        (after_line (fst (snd (loopB b preB))) lineB)
          \<lparr>Requsts := Requsts b @ [log_recordB (now ans) (Text lineB)]\<rparr>,
        Returned)"
    unfolding loopB_append [OF assms(3)] loopB_Return [OF handleB_line_fail [OF w(1) assms(4)]]
    by (simp add: w(2))
  show "loopB b (preB @ TickEv ans # post) =
       (fst (loopB b preB) @
        [Write (encodeB (beat_record (now ans))) (Some e),
         Print (''Error writing to stream: '' @ e @ [CHR 0x0A])],
        fst (snd (loopB b preB)), Returned)"
    unfolding loopB_append [OF assms(3)] loopB_Return [OF handleB_tick_fail [OF assms(4)]]
    by simp
  show "Requsts (fst (snd (loopB b preB))) = Requsts b" by (rule w(2))
  show "clean out \<and> st \<noteq> Hung \<or>
      st = Returned \<and> (\<exists>pre p e l. out = pre @ [Write p (Some e), Log l] \<and> clean pre)"
    by (rule loop_failure_is_final [OF assms(6)])
  show "clean outB \<and> Requsts b' = Requsts b \<or>
      stB = Returned \<and>
      (\<exists>pre p e l. outB = pre @ [Write p (Some e), Print l] \<and> clean pre \<and>
         buffered p (Requsts b) (Requsts b'))"
    by (rule loopB_failure_is_final [OF assms(2,7)])
qed

theorem write_failure_is_final_witness:
  "snd (loop example_app [LineEv \<lparr>Text = ''a'', Err = None\<rparr> (ok_answers example_time)]) = Waiting \<and>
   \<not> Memory main_app \<and>
   snd (snd (loopB main_app [TickEv (ok_answers example_time)])) = Waiting \<and>
   write_err (failing_answers example_time) = Some ''timeout: no recent network activity'' \<and>
   loop example_app [LineEv \<lparr>Text = ''a'', Err = None\<rparr> (ok_answers example_time),
                     LineEv \<lparr>Text = ''b'', Err = None\<rparr> (failing_answers example_time),
                     LineEv \<lparr>Text = ''c'', Err = None\<rparr> (ok_answers example_time)] =
     ([Write (encode (log_record example_app example_time ''a'') @ [CHR 0x0A]) None,
       Write (encode (log_record example_app example_time ''b'') @ [CHR 0x0A])
         (Some ''timeout: no recent network activity''),
       Log ''Error writing to stream (server might be down): timeout: no recent network activity''],
      Returned) \<and>
   loop example_app [LineEv \<lparr>Text = ''a'', Err = None\<rparr> (ok_answers example_time),
                     TickEv (failing_answers example_time),
                     LineEv \<lparr>Text = ''c'', Err = None\<rparr> (ok_answers example_time)] =
     ([Write (encode (log_record example_app example_time ''a'') @ [CHR 0x0A]) None,
       Write beat_token (Some ''timeout: no recent network activity''),
       Log ''Heartbeat failed: timeout: no recent network activity''], Returned) \<and>
   loopB main_app [TickEv (ok_answers example_time),
                   LineEv \<lparr>Text = ''b'', Err = None\<rparr> (failing_answers example_time),
                   LineEv \<lparr>Text = ''c'', Err = None\<rparr> (ok_answers example_time)] =
     ([Write (encodeB (beat_record example_time)) None, Read (ReadOk 2),
       Write (encodeB (log_recordB example_time ''b'')) (Some ''timeout: no recent network activity''),
       Print (''Error writing to stream: timeout: no recent network activity'' @ [CHR 0x0A])],
      main_app\<lparr>Lines := ''b'' @ [CHR 0x0A],
                Requsts := replicate 500 zero_SyslogLineB @ [log_recordB example_time ''b'']\<rparr>,
      Returned) \<and>
   loopB main_app [TickEv (ok_answers example_time),
                   TickEv (failing_answers example_time),
                   LineEv \<lparr>Text = ''c'', Err = None\<rparr> (ok_answers example_time)] =
     ([Write (encodeB (beat_record example_time)) None, Read (ReadOk 2),
       Write (encodeB (beat_record example_time)) (Some ''timeout: no recent network activity''),
       Print (''Error writing to stream: timeout: no recent network activity'' @ [CHR 0x0A])],
      main_app, Returned)"
proof -
  let ?pre = "[LineEv \<lparr>Text = ''a'', Err = None\<rparr> (ok_answers example_time)]"
  let ?preB = "[TickEv (ok_answers example_time)]"
  let ?post = "[LineEv \<lparr>Text = ''c'', Err = None\<rparr> (ok_answers example_time)]"
  have m: "\<not> Memory main_app" by (simp add: main_app_def)
  have a: "loop example_app ?pre =
      ([Write (encode (log_record example_app example_time ''a'') @ [CHR 0x0A]) None], Waiting)"
    by (simp add: handle_line_ok ok_answers_def)
  have b: "loopB main_app ?preB =
      ([Write (encodeB (beat_record example_time)) None, Read (ReadOk 2)], main_app, Waiting)"
    by (simp add: handleB_tick_ok ok_answers_def read_response_def)
  have f: "write_err (failing_answers example_time) = Some ''timeout: no recent network activity''"
    by (simp add: failing_answers_def)
  have n: "Err \<lparr>Text = ''b'', Err = None\<rparr> = None" by simp
  have wa: "snd (loop example_app ?pre) = Waiting" using a by simp
  have wb: "snd (snd (loopB main_app ?preB)) = Waiting" using b by simp
  from write_failure_is_final [OF wa m wb f n a b, of ?post "\<lparr>Text = ''b'', Err = None\<rparr>"]
       a b m f wa wb
  show ?thesis
    by (simp add: failing_answers_def after_line_def main_app_def)
qed

section \<open>Delivery of lines in order\<close>

lemma wire_simps [simp]:
  "wire [] = []"
  "wire (Write p None # xs) = p # wire xs"
  "wire (Write p (Some e) # xs) = wire xs"
  "wire (Read r # xs) = wire xs"
  "wire (Log l # xs) = wire xs"
  "wire (Print l # xs) = wire xs"
  "wire (StreamClose # xs) = wire xs"
  by (simp_all add: wire_def)

lemma wire_append [simp]: "wire (xs @ ys) = wire xs @ wire ys"
  by (simp add: wire_def List.map_filter_def)

lemma wire_read_response [simp]: "wire (fst (read_response r)) = []"
  by (cases r) (simp_all add: read_response_def)

lemma is_beatB_beat [simp]: "is_beatB (encodeB (beat_record t))"
  by (simp add: is_beatB_def encodeB_def beat_record_def)

lemma is_beatB_log [simp]: "\<not> is_beatB (encodeB (log_recordB t text))"
  by (simp add: is_beatB_def encodeB_def log_recordB_def)

lemma loop_healthy:
  "\<forall>ev \<in> set evs. write_ok ev \<Longrightarrow>
   filter (\<lambda>p. p \<noteq> beat_token) (wire (fst (loop a evs))) =
     map (\<lambda>(text, t). encode (log_record a t text) @ [CHR 0x0A]) (lines_of (observed evs))"
proof (induction evs)
  case Nil
  then show ?case by (simp add: lines_of_def observed_def)
next
  case (Cons ev evs)
  then have IH: "filter (\<lambda>p. p \<noteq> beat_token) (wire (fst (loop a evs))) =
     map (\<lambda>(text, t). encode (log_record a t text) @ [CHR 0x0A]) (lines_of (observed evs))"
    and ok: "write_ok ev" by simp_all
  show ?case
  proof (cases ev)
    case (LineEv line ans)
    with ok have w: "write_err ans = None" by (simp add: write_ok_def)
    show ?thesis
    proof (cases "Err line")
      case None
      with LineEv w IH show ?thesis
        by (simp add: loop_Continue [OF handle_line_ok] encode_not_beat lines_of_def
            observed_def del: loop.simps)
    next
      case (Some e)
      with LineEv IH show ?thesis
        by (simp add: loop_Continue [OF handle_err_line] lines_of_def observed_def
            del: loop.simps)
    qed
  next
    case ChanClosed
    then show ?thesis
      by (simp add: handle_closed lines_of_def observed_def)
  next
    case (TickEv ans)
    with ok have w: "write_err ans = None" by (simp add: write_ok_def)
    with TickEv IH show ?thesis
      by (simp add: loop_Continue [OF handle_tick_ok] lines_of_def observed_def
          del: loop.simps)
  qed
qed

lemma loopB_healthy:
  "\<not> Memory b \<Longrightarrow> \<forall>ev \<in> set evs. write_ok ev \<and> read_ok ev \<Longrightarrow>
   filter (\<lambda>p. \<not> is_beatB p) (wire (fst (loopB b evs))) =
     map (\<lambda>(text, t). encodeB (log_recordB t text)) (all_lines (observed evs))"
proof (induction evs arbitrary: b)
  case Nil
  then show ?case by (simp add: all_lines_def observed_def)
next
  case (Cons ev evs)
  then have ok: "write_ok ev" "read_ok ev" and rest: "\<forall>ev \<in> set evs. write_ok ev \<and> read_ok ev"
    by simp_all
  show ?case
  proof (cases ev)
    case (LineEv line ans)
    with ok have w: "write_err ans = None" by (simp add: write_ok_def)
    from ok LineEv obtain n where r: "read_res ans = ReadOk n"
      by (cases "read_res ans") (simp_all add: read_ok_def)
    have m: "\<not> Memory (after_line b line)" using Cons.prems(1) by simp
    have h: "handleB b (LineEv line ans) =
        (Write (encodeB (log_recordB (now ans) (Text line))) None #
         Read (ReadOk n) # (if n < 1 then [Print '' got one ''] else []), after_line b line, Continue)"
      using w r Cons.prems(1) by (simp add: handleB_line_ok read_response_def)
    from Cons.IH [OF m rest] LineEv show ?thesis
      by (simp add: loopB_Continue [OF h] all_lines_def observed_def
          del: loopB.simps)
  next
    case ChanClosed
    then show ?thesis
      by (simp add: handleB_closed all_lines_def observed_def)
  next
    case (TickEv ans)
    with ok have w: "write_err ans = None" by (simp add: write_ok_def)
    from ok TickEv obtain n where r: "read_res ans = ReadOk n"
      by (cases "read_res ans") (simp_all add: read_ok_def)
    have h: "handleB b (TickEv ans) =
        (Write (encodeB (beat_record (now ans))) None #
         Read (ReadOk n) # (if n < 1 then [Print '' got one ''] else []), b, Continue)"
      using w r by (simp add: handleB_tick_ok read_response_def)
    from Cons.IH [OF Cons.prems(1) rest] TickEv show ?thesis
      by (simp add: loopB_Continue [OF h] all_lines_def observed_def
          del: loopB.simps)
  qed
qed

lemma received_lines:
  "list_all (\<lambda>(text, t). ValidString text) ls \<Longrightarrow>
   map received (map (\<lambda>(text, t). encode (log_record a t text) @ [CHR 0x0A]) ls) =
     map (\<lambda>(text, t). Some text) ls"
  by (induction ls) (auto simp: received_encode ToValidUTF8_valid log_record_def)

lemma receivedB_lines:
  "list_all (\<lambda>(text, t). ValidString text) ls \<Longrightarrow>
   map receivedB (map (\<lambda>(text, t). encodeB (log_recordB t text)) ls) =
     map (\<lambda>(text, t). Some text) ls"
  by (induction ls) (auto simp: receivedB_encodeB ToValidUTF8_valid log_recordB_def)

text \<open>
  Claim C1, amended. While every write succeeds, app.go performs one successful log-record
  write for each line observed without error before the tail channel closes, in the order
  of observation. part_000 does the same for every line event provided that, in addition,
  every response read returns without error. When the text of every such line is
  well-formed UTF-8, the message that the receiver decodes from the i-th record is the
  text of the i-th line. (\<open>json.Marshal\<close> replaces bytes that are not UTF-8 by U+FFFD.)
\<close>

theorem lines_are_delivered_in_order:
  assumes "list_all write_ok evs"
  shows "filter (\<lambda>p. p \<noteq> beat_token) (wire (fst (loop a evs))) =
           map (\<lambda>(text, t). encode (log_record a t text) @ [CHR 0x0A]) (lines_of (observed evs)) \<and>
         (list_all (\<lambda>(text, t). ValidString text) (lines_of (observed evs)) \<longrightarrow>
            map received (filter (\<lambda>p. p \<noteq> beat_token) (wire (fst (loop a evs)))) =
              map (\<lambda>(text, t). Some text) (lines_of (observed evs))) \<and>
         (\<not> Memory b \<and> list_all read_ok evs \<longrightarrow>
            filter (\<lambda>p. \<not> is_beatB p) (wire (fst (loopB b evs))) =
              map (\<lambda>(text, t). encodeB (log_recordB t text)) (all_lines (observed evs))) \<and>
         (\<not> Memory b \<and> list_all read_ok evs \<and>
          list_all (\<lambda>(text, t). ValidString text) (all_lines (observed evs)) \<longrightarrow>
            map receivedB (filter (\<lambda>p. \<not> is_beatB p) (wire (fst (loopB b evs)))) =
              map (\<lambda>(text, t). Some text) (all_lines (observed evs)))"
proof (intro conjI impI)
  from assms have w: "\<forall>ev \<in> set evs. write_ok ev" by (simp add: list_all_iff)
  then show A: "filter (\<lambda>p. p \<noteq> beat_token) (wire (fst (loop a evs))) =
           map (\<lambda>(text, t). encode (log_record a t text) @ [CHR 0x0A]) (lines_of (observed evs))"
    by (rule loop_healthy)
  show "map received (filter (\<lambda>p. p \<noteq> beat_token) (wire (fst (loop a evs)))) =
          map (\<lambda>(text, t). Some text) (lines_of (observed evs))"
    if "list_all (\<lambda>(text, t). ValidString text) (lines_of (observed evs))"
    unfolding A using that by (rule received_lines)
  have B: "filter (\<lambda>p. \<not> is_beatB p) (wire (fst (loopB b evs))) =
              map (\<lambda>(text, t). encodeB (log_recordB t text)) (all_lines (observed evs))"
    if "\<not> Memory b" "list_all read_ok evs"
  proof -
    from that w have "\<not> Memory b" "\<forall>ev \<in> set evs. write_ok ev \<and> read_ok ev"
      by (simp_all add: list_all_iff)
    then show ?thesis by (rule loopB_healthy)
  qed
  show "filter (\<lambda>p. \<not> is_beatB p) (wire (fst (loopB b evs))) =
              map (\<lambda>(text, t). encodeB (log_recordB t text)) (all_lines (observed evs))"
    if "\<not> Memory b \<and> list_all read_ok evs"
    using that B by simp
  show "map receivedB (filter (\<lambda>p. \<not> is_beatB p) (wire (fst (loopB b evs)))) =
              map (\<lambda>(text, t). Some text) (all_lines (observed evs))"
    if h: "\<not> Memory b \<and> list_all read_ok evs \<and>
          list_all (\<lambda>(text, t). ValidString text) (all_lines (observed evs))"
  proof -
    from h have v: "list_all (\<lambda>(text, t). ValidString text) (all_lines (observed evs))" by simp
    from h B have "filter (\<lambda>p. \<not> is_beatB p) (wire (fst (loopB b evs))) =
              map (\<lambda>(text, t). encodeB (log_recordB t text)) (all_lines (observed evs))" by simp
    then show ?thesis using receivedB_lines [OF v] by simp
  qed
qed

theorem lines_are_delivered_in_order_witness:
  "list_all write_ok example_events \<and>
   list_all (\<lambda>(text, t). ValidString text) [(''first'', example_time), (''second'', example_time)] \<and>
   filter (\<lambda>p. p \<noteq> beat_token) (wire (fst (loop example_app example_events))) =
     [encode (log_record example_app example_time ''first'') @ [CHR 0x0A],
      encode (log_record example_app example_time ''second'') @ [CHR 0x0A]] \<and>
   map received (filter (\<lambda>p. p \<noteq> beat_token) (wire (fst (loop example_app example_events)))) =
     [Some ''first'', Some ''second''] \<and>
   \<not> Memory main_app \<and> list_all read_ok example_events \<and>
   filter (\<lambda>p. \<not> is_beatB p) (wire (fst (loopB main_app example_events))) =
     [encodeB (log_recordB example_time ''first''), encodeB (log_recordB example_time ''second'')] \<and>
   map receivedB (filter (\<lambda>p. \<not> is_beatB p) (wire (fst (loopB main_app example_events)))) =
     [Some ''first'', Some ''second'']"
proof -
  have w: "list_all write_ok example_events"
    by (simp add: example_events_def write_ok_def ok_answers_def)
  have r: "list_all read_ok example_events"
    by (simp add: example_events_def read_ok_def ok_answers_def)
  have m: "\<not> Memory main_app" by (simp add: main_app_def)
  have l: "lines_of (observed example_events) = [(''first'', example_time), (''second'', example_time)]"
    "all_lines (observed example_events) = [(''first'', example_time), (''second'', example_time)]"
    by (simp_all add: example_events_def lines_of_def all_lines_def observed_def ok_answers_def)
  have v: "list_all (\<lambda>(text, t). ValidString text)
      [(''first'', example_time), (''second'', example_time)]"
    by (simp add: byte_def)
  from lines_are_delivered_in_order [OF w, of example_app main_app] w r m l v
  show ?thesis
    by (simp add: byte_def received_encode receivedB_encodeB log_record_def log_recordB_def)
qed

text \<open>
  Claim C1 as stated fails in two ways. On part_000, two lines are observed and no write
  fails, but the read that follows the first write returns an error, the loop returns, and
  the stream receives one record instead of two. On app.go, a line of a Latin-1 file, \<open>caf\<close>
  followed by the byte \<open>0xE9\<close>, is written with the escape of U+FFFD in place of that byte,
  and the message the receiver decodes is not the text of the line.
\<close>

theorem line_is_not_delivered_as_observed:
  \<open>write_ok (LineEv \<lparr>Text = ''first'', Err = None\<rparr>
       \<lparr>now = example_time, write_err = None, read_res = ReadErr ''deadline exceeded''\<rparr>) \<and>
   write_ok (LineEv \<lparr>Text = ''second'', Err = None\<rparr> (ok_answers example_time)) \<and>
   wire (fst (loopB main_app
     [LineEv \<lparr>Text = ''first'', Err = None\<rparr>
        \<lparr>now = example_time, write_err = None, read_res = ReadErr ''deadline exceeded''\<rparr>,
      LineEv \<lparr>Text = ''second'', Err = None\<rparr> (ok_answers example_time)])) =
     [encodeB (log_recordB example_time ''first'')] \<and>
   write_ok (LineEv \<lparr>Text = latin1_line, Err = None\<rparr> (ok_answers example_time)) \<and>
   wire (fst (loop example_app [LineEv \<lparr>Text = latin1_line, Err = None\<rparr> (ok_answers example_time)])) =
     [encode (log_record example_app example_time latin1_line) @ [CHR 0x0A]] \<and>
   encode (log_record example_app example_time latin1_line) =
     ''{"timestamp":"2026-11-01T09:05:07-05:00","hostname":"web-1",'' @
     ''"program":"teller","pid":4242,"message":"caf'' @ [CHR 0x5C] @ ''ufffd"}'' \<and>
   received (encode (log_record example_app example_time latin1_line) @ [CHR 0x0A]) =
     Some [CHR ''c'', CHR ''a'', CHR ''f'', CHR 0xEF, CHR 0xBF, CHR 0xBD] \<and>
   latin1_line = [CHR ''c'', CHR ''a'', CHR ''f'', CHR 0xE9]\<close>
proof -
  have m: "\<not> Memory main_app" by (simp add: main_app_def)
  have 1: "wire (fst (loopB main_app
     [LineEv \<lparr>Text = ''first'', Err = None\<rparr>
        \<lparr>now = example_time, write_err = None, read_res = ReadErr ''deadline exceeded''\<rparr>,
      LineEv \<lparr>Text = ''second'', Err = None\<rparr> (ok_answers example_time)])) =
     [encodeB (log_recordB example_time ''first'')]"
    by (simp add: handleB_line_ok [OF m] read_response_def)
  have 2: "wire (fst (loop example_app
       [LineEv \<lparr>Text = latin1_line, Err = None\<rparr> (ok_answers example_time)])) =
     [encode (log_record example_app example_time latin1_line) @ [CHR 0x0A]]"
    by (simp add: handle_line_ok ok_answers_def)
  have 3: \<open>encode (log_record example_app example_time latin1_line) =
     ''{"timestamp":"2026-11-01T09:05:07-05:00","hostname":"web-1",'' @
     ''"program":"teller","pid":4242,"message":"caf'' @ [CHR 0x5C] @ ''ufffd"}''\<close>
    by (simp add: log_record_def example_app_def example_time_def latin1_line_def json_eval
        time_eval)
  have 4: "received (encode (log_record example_app example_time latin1_line) @ [CHR 0x0A]) =
     Some [CHR ''c'', CHR ''a'', CHR ''f'', CHR 0xEF, CHR 0xBF, CHR 0xBD]"
    by (simp add: received_encode log_record_def latin1_line_def byte_def
        DecodeRuneInString_def seq_len_def RuneError_def)
  show ?thesis
    by (intro conjI 1 2 3 4) (simp_all add: write_ok_def ok_answers_def latin1_line_def)
qed

section \<open>Framing of the payloads\<close>








section \<open>Responses (part_000)\<close>

text \<open>
  Claim C10. In part_000, the handling of an event whose write succeeds goes on to read a
  response from the stream before the next event is taken. When the read returns without
  error the loop handles the remaining events; when it returns an error the loop returns,
  and when it never returns the loop hangs: in both cases none of the remaining events is
  handled, whatever they are. Later lines are therefore delivered only if the receiver
  answers every record and every heartbeat.
\<close>

theorem response_is_read_after_every_write:
  assumes "\<not> Memory b" and "write_err ans = None"
  shows "loopB b (LineEv line ans # evs) =
           (case read_res ans of
              ReadOk n \<Rightarrow>
                (Write (encodeB (log_recordB (now ans) (Text line))) None # Read (ReadOk n) #
                 (if n < 1 then [Print '' got one ''] else []) @ fst (loopB (after_line b line) evs),
                 snd (loopB (after_line b line) evs))
            | ReadErr e \<Rightarrow>
                ([Write (encodeB (log_recordB (now ans) (Text line))) None, Read (ReadErr e),
                  Print (''Error reading from stream: '' @ e @ [CHR 0x0A])],
                 after_line b line, Returned)
            | ReadBlocks \<Rightarrow>
                ([Write (encodeB (log_recordB (now ans) (Text line))) None, Read ReadBlocks],
                 after_line b line, Hung)) \<and>
         loopB b (TickEv ans # evs) =
           (case read_res ans of
              ReadOk n \<Rightarrow>
                (Write (encodeB (beat_record (now ans))) None # Read (ReadOk n) #
                 (if n < 1 then [Print '' got one ''] else []) @ fst (loopB b evs),
                 snd (loopB b evs))
            | ReadErr e \<Rightarrow>
                ([Write (encodeB (beat_record (now ans))) None, Read (ReadErr e),
                  Print (''Error reading from stream: '' @ e @ [CHR 0x0A])],
                 b, Returned)
            | ReadBlocks \<Rightarrow>
                ([Write (encodeB (beat_record (now ans))) None, Read ReadBlocks], b, Hung))"
  using assms
  by (cases "read_res ans")
     (simp_all add: handleB_line_ok handleB_tick_ok read_response_def split: prod.splits)

theorem response_is_read_after_every_write_witness:
  "\<not> Memory main_app \<and>
   write_err \<lparr>now = example_time, write_err = None, read_res = ReadErr ''deadline exceeded''\<rparr> = None \<and>
   loopB main_app
     [LineEv \<lparr>Text = ''a'', Err = None\<rparr>
        \<lparr>now = example_time, write_err = None, read_res = ReadErr ''deadline exceeded''\<rparr>,
      LineEv \<lparr>Text = ''b'', Err = None\<rparr> (ok_answers example_time)] =
     ([Write (encodeB (log_recordB example_time ''a'')) None, Read (ReadErr ''deadline exceeded''),
       Print (''Error reading from stream: deadline exceeded'' @ [CHR 0x0A])],
      after_line main_app \<lparr>Text = ''a'', Err = None\<rparr>, Returned)"
proof -
  have m: "\<not> Memory main_app" by (simp add: main_app_def)
  have w: "write_err \<lparr>now = example_time, write_err = None,
                      read_res = ReadErr ''deadline exceeded''\<rparr> = None" by simp
  from response_is_read_after_every_write [OF m w, of "\<lparr>Text = ''a'', Err = None\<rparr>"
      "[LineEv \<lparr>Text = ''b'', Err = None\<rparr> (ok_answers example_time)]"] m
  show ?thesis by simp
qed

section \<open>The pending buffer (part_000)\<close>









section \<open>Lines that carry an error\<close>




section \<open>Round trip through the receiver\<close>

text \<open>
  Claim C8, amended. For every record of app.go whose hostname, program and message are
  well-formed UTF-8, the reference receiver decodes the bytes of \<open>json.Marshal\<close> to a record
  with the same message, hostname, program and pid.
\<close>

theorem encode_decode_round_trip:
  assumes "ValidString (SyslogLine.Hostname sl)" "ValidString (Program sl)" "ValidString (Message sl)"
  shows "\<exists>sl'. decode_SyslogLine (encode sl) = Some sl' \<and>
           Message sl' = Message sl \<and> SyslogLine.Hostname sl' = SyslogLine.Hostname sl \<and>
           Program sl' = Program sl \<and> SyslogLine.Pid sl' = SyslogLine.Pid sl"
  using assms by (simp add: decode_SyslogLine_encode ToValidUTF8_valid)

theorem encode_decode_round_trip_witness:
  "ValidString (SyslogLine.Hostname (log_record example_app example_time ''hello'')) \<and>
   ValidString (Program (log_record example_app example_time ''hello'')) \<and>
   ValidString (Message (log_record example_app example_time ''hello'')) \<and>
   (\<exists>sl'. decode_SyslogLine (encode (log_record example_app example_time ''hello'')) = Some sl' \<and>
          Message sl' = ''hello'' \<and> SyslogLine.Hostname sl' = ''web-1'' \<and>
          Program sl' = ''teller'' \<and> SyslogLine.Pid sl' = 4242)"
proof -
  have v: "ValidString (SyslogLine.Hostname (log_record example_app example_time ''hello''))"
    "ValidString (Program (log_record example_app example_time ''hello''))"
    "ValidString (Message (log_record example_app example_time ''hello''))"
    by (simp_all add: log_record_def example_app_def byte_def)
  from encode_decode_round_trip [OF v] v show ?thesis
    by (simp add: log_record_def example_app_def)
qed

text \<open>
  Claim C8 as stated fails for a record whose message is not UTF-8: \<open>json.Marshal\<close>
  replaces each offending byte by the escape of U+FFFD. A line \<open>caf\<close> followed by the
  Latin-1 byte \<open>0xE9\<close> comes back as \<open>caf\<close> followed by the three bytes of U+FFFD.
\<close>

theorem invalid_utf8_is_replaced:
  "map_option Message (decode_SyslogLine (encode (log_record example_app example_time latin1_line))) =
     Some [CHR ''c'', CHR ''a'', CHR ''f'', CHR 0xEF, CHR 0xBF, CHR 0xBD] \<and>
   Message (log_record example_app example_time latin1_line) = [CHR ''c'', CHR ''a'', CHR ''f'', CHR 0xE9]"
  by (simp add: decode_SyslogLine_encode log_record_def latin1_line_def byte_def
      DecodeRuneInString_def seq_len_def RuneError_def)

section \<open>Fields and timestamps of the records\<close>

text \<open>
  Claim C5, amended. A log record encoded by app.go has exactly the five members
  \<open>timestamp\<close>, \<open>hostname\<close>, \<open>program\<close>, \<open>pid\<close> and \<open>message\<close>, in this order, and its
  timestamp is a valid RFC 3339 string; the heartbeat of app.go is the token \<open>|beat|\<close>,
  which is no record and has no timestamp. Every record of part_000, log record or
  heartbeat, has six members, \<open>beat\<close> first, and its timestamp is the rendering of
  \<open>time.Time.String\<close>, which is not an RFC 3339 string.
\<close>

theorem record_fields_and_timestamps:
  assumes "wf_time t"
  shows "decode_object (encode (log_record a t text)) =
           Some [(''timestamp'', JString (Format_RFC3339 t)),
                 (''hostname'', JString (ToValidUTF8 (App.Hostname a))),
                 (''program'', JString ''teller''),
                 (''pid'', JInt (App.Pid a)),
                 (''message'', JString (ToValidUTF8 text))] \<and>
         valid_rfc3339 (Format_RFC3339 t) \<and>
         decode_object beat_token = None \<and>
         decode_object (encodeB (log_recordB t text)) =
           Some [(''beat'', JBool False),
                 (''timestamp'', JString (ToValidUTF8 (time_String t))),
                 (''hostname'', JString ''localhost''),
                 (''program'', JString ''myapp''),
                 (''pid'', JString ''1234''),
                 (''message'', JString (ToValidUTF8 text))] \<and>
         decode_object (encodeB (beat_record t)) =
           Some [(''beat'', JBool True),
                 (''timestamp'', JString (ToValidUTF8 (time_String t))),
                 (''hostname'', JString []),
                 (''program'', JString []),
                 (''pid'', JString []),
                 (''message'', JString [])] \<and>
         \<not> valid_rfc3339 (ToValidUTF8 (time_String t))"
proof (intro conjI)
  show "decode_object (encode (log_record a t text)) =
           Some [(''timestamp'', JString (Format_RFC3339 t)),
                 (''hostname'', JString (ToValidUTF8 (App.Hostname a))),
                 (''program'', JString ''teller''),
                 (''pid'', JInt (App.Pid a)),
                 (''message'', JString (ToValidUTF8 text))]"
    by (simp add: decode_object_encode log_record_def Format_RFC3339_ascii [OF assms] byte_def)
  show "valid_rfc3339 (Format_RFC3339 t)" using assms by (rule Format_RFC3339_valid)
  show "decode_object beat_token = None" by (simp add: decode_object_def beat_token_def)
  show "decode_object (encodeB (log_recordB t text)) =
           Some [(''beat'', JBool False),
                 (''timestamp'', JString (ToValidUTF8 (time_String t))),
                 (''hostname'', JString ''localhost''),
                 (''program'', JString ''myapp''),
                 (''pid'', JString ''1234''),
                 (''message'', JString (ToValidUTF8 text))]"
    by (simp add: decode_object_encodeB log_recordB_def byte_def)
  show "decode_object (encodeB (beat_record t)) =
           Some [(''beat'', JBool True),
                 (''timestamp'', JString (ToValidUTF8 (time_String t))),
                 (''hostname'', JString []),
                 (''program'', JString []),
                 (''pid'', JString []),
                 (''message'', JString [])]"
    by (simp add: decode_object_encodeB beat_record_def)
  show "\<not> valid_rfc3339 (ToValidUTF8 (time_String t))"
    using assms by (rule time_String_wire_not_rfc3339)
qed

theorem record_fields_and_timestamps_witness:
  "wf_time example_time \<and>
   decode_object (encode (log_record example_app example_time ''hello'')) =
     Some [(''timestamp'', JString ''2026-11-01T09:05:07-05:00''),
           (''hostname'', JString ''web-1''),
           (''program'', JString ''teller''),
           (''pid'', JInt 4242),
           (''message'', JString ''hello'')] \<and>
   valid_rfc3339 ''2026-11-01T09:05:07-05:00''"
proof -
  have w: "wf_time example_time"
    by (simp add: wf_time_def example_time_def days_in_def)
  have f: "Format_RFC3339 example_time = ''2026-11-01T09:05:07-05:00''"
    by (simp add: example_time_def time_eval)
  from record_fields_and_timestamps [OF w, of example_app "''hello''"] w f show ?thesis
    by (simp add: example_app_def byte_def)
qed

text \<open>
  Claim C5 as stated fails: a log record of part_000 has the sixth member \<open>beat\<close>, its
  timestamp separates date and time by a space and writes the zone as \<open>-0500 EST\<close>, and the
  heartbeat of app.go decodes to no record at all.
\<close>

theorem part_000_record_has_six_fields:
  "decode_object (encodeB (log_recordB example_time ''hello'')) =
     Some [(''beat'', JBool False),
           (''timestamp'', JString ''2026-11-01 09:05:07.12 -0500 EST m=+1.234567890''),
           (''hostname'', JString ''localhost''),
           (''program'', JString ''myapp''),
           (''pid'', JString ''1234''),
           (''message'', JString ''hello'')] \<and>
   \<not> valid_rfc3339 ''2026-11-01 09:05:07.12 -0500 EST m=+1.234567890'' \<and>
   decode_object ''|beat|'' = None"
proof -
  have f: "time_String example_time = ''2026-11-01 09:05:07.12 -0500 EST m=+1.234567890''"
    by (simp add: example_time_def time_eval)
  have a: "decode_object (encodeB (log_recordB example_time ''hello'')) =
     Some [(''beat'', JBool False),
           (''timestamp'', JString ''2026-11-01 09:05:07.12 -0500 EST m=+1.234567890''),
           (''hostname'', JString ''localhost''),
           (''program'', JString ''myapp''),
           (''pid'', JString ''1234''),
           (''message'', JString ''hello'')]"
    by (simp add: decode_object_encodeB log_recordB_def f byte_def)
  have b: "\<not> valid_rfc3339 ''2026-11-01 09:05:07.12 -0500 EST m=+1.234567890''"
    by (simp add: valid_rfc3339_def)
  have c: "decode_object ''|beat|'' = None" by (simp add: decode_object_def)
  from a b c show ?thesis by blast
qed

section \<open>Heartbeats and log records on the wire\<close>

text \<open>
  Claim C4, amended. The bytes of a heartbeat differ from the bytes of every log record, in
  app.go (the token against a JSON object and a newline) and in part_000 (the objects
  differ in the value of \<open>beat\<close>, which their first bytes show). In part_000 the \<open>beat\<close>
  member is present in every record, \<open>true\<close> on a heartbeat and \<open>false\<close> on a log record;
  on a heartbeat \<open>hostname\<close>, \<open>program\<close>, \<open>pid\<close> and \<open>message\<close> are present and empty, and
  \<open>timestamp\<close> holds the time of the tick.
\<close>

theorem heartbeat_is_distinguishable:
  "encode (log_record a t text) @ [CHR 0x0A] \<noteq> beat_token \<and>
   encodeB (log_recordB t text) \<noteq> encodeB (beat_record t') \<and>
   is_beatB (encodeB (beat_record t')) \<and> \<not> is_beatB (encodeB (log_recordB t text)) \<and>
   decode_object (encodeB (beat_record t')) =
     Some [(''beat'', JBool True),
           (''timestamp'', JString (ToValidUTF8 (time_String t'))),
           (''hostname'', JString []),
           (''program'', JString []),
           (''pid'', JString []),
           (''message'', JString [])] \<and>
   (\<exists>rest. decode_object (encodeB (log_recordB t text)) = Some ((''beat'', JBool False) # rest))"
proof (intro conjI)
  show "encode (log_record a t text) @ [CHR 0x0A] \<noteq> beat_token" by (rule encode_not_beat)
  show "is_beatB (encodeB (beat_record t'))" by simp
  show n: "\<not> is_beatB (encodeB (log_recordB t text))" by simp
  show "encodeB (log_recordB t text) \<noteq> encodeB (beat_record t')"
  proof
    assume "encodeB (log_recordB t text) = encodeB (beat_record t')"
    then have "is_beatB (encodeB (log_recordB t text))" by simp
    with n show False ..
  qed
  show "decode_object (encodeB (beat_record t')) =
     Some [(''beat'', JBool True),
           (''timestamp'', JString (ToValidUTF8 (time_String t'))),
           (''hostname'', JString []),
           (''program'', JString []),
           (''pid'', JString []),
           (''message'', JString [])]"
    by (simp add: decode_object_encodeB beat_record_def)
  show "\<exists>rest. decode_object (encodeB (log_recordB t text)) = Some ((''beat'', JBool False) # rest)"
    by (simp add: decode_object_encodeB log_recordB_def)
qed

text \<open>
  Claim C4 as stated fails on two counts: the timestamp of a heartbeat is not empty, and a
  log record carries the \<open>beat\<close> member too, with the value \<open>false\<close>.
\<close>

theorem heartbeat_carries_a_timestamp:
  \<open>decode_object (encodeB (beat_record example_time)) =
     Some [(''beat'', JBool True),
           (''timestamp'', JString ''2026-11-01 09:05:07.12 -0500 EST m=+1.234567890''),
           (''hostname'', JString []),
           (''program'', JString []),
           (''pid'', JString []),
           (''message'', JString [])] \<and>
   take 13 (encodeB (log_recordB example_time ''hello'')) = ''{"beat":false''\<close>
proof -
  have f: "time_String example_time = ''2026-11-01 09:05:07.12 -0500 EST m=+1.234567890''"
    by (simp add: example_time_def time_eval)
  have a: "decode_object (encodeB (beat_record example_time)) =
     Some [(''beat'', JBool True),
           (''timestamp'', JString ''2026-11-01 09:05:07.12 -0500 EST m=+1.234567890''),
           (''hostname'', JString []),
           (''program'', JString []),
           (''pid'', JString []),
           (''message'', JString [])]"
    by (simp add: decode_object_encodeB beat_record_def f byte_def)
  have b: \<open>take 13 (encodeB (log_recordB example_time ''hello'')) = ''{"beat":false''\<close>
    by (simp add: encodeB_def log_recordB_def)
  from a b show ?thesis by blast
qed

end
